theory Spec2Isabelle
  imports Main
begin

section \<open>The tokenizer (\<^verbatim>\<open>split\<close>, myshell.cpp lines 15-27)\<close>

text \<open>
  \<^verbatim>\<open>split\<close> reads the string through an \<^verbatim>\<open>istringstream\<close> with
  \<^verbatim>\<open>getline(tokenStream, token, delimiter)\<close>. The stream is modelled by the characters
  not yet read. One call extracts characters up to the next delimiter (which is read and
  discarded) or up to the end of the stream. It fails, ending the loop, exactly when the
  stream has no character left: either the previous call ran into the end of the stream
  (eofbit), or it consumed a final delimiter and this call extracts nothing (failbit).
\<close>

definition getline_delim :: "string \<Rightarrow> char \<Rightarrow> (string \<times> string) option" where
  "getline_delim stream d =
     (if stream = [] then None
      else Some (takeWhile (\<lambda>c. c \<noteq> d) stream, drop 1 (dropWhile (\<lambda>c. c \<noteq> d) stream)))"

text \<open>
  \<^verbatim>\<open>find_first_not_of\<close> and \<^verbatim>\<open>find_last_not_of\<close> return a position, or
  \<^verbatim>\<open>npos\<close> (here \<open>None\<close>) when every character belongs to the given set.
\<close>

fun find_first_not_of :: "string \<Rightarrow> string \<Rightarrow> nat option" where
  "find_first_not_of [] cs = None"
| "find_first_not_of (c # s) cs =
     (if c \<in> set cs then map_option Suc (find_first_not_of s cs) else Some 0)"

definition find_last_not_of :: "string \<Rightarrow> string \<Rightarrow> nat option" where
  "find_last_not_of s cs =
     map_option (\<lambda>i. length s - 1 - i) (find_first_not_of (rev s) cs)"

text \<open>
  \<^verbatim>\<open>s.substr(pos, n)\<close>: at most \<open>n\<close> characters from \<open>pos\<close> on. The source calls it
  with a position of the token, so the exception for \<open>pos > size\<close> cannot occur.
\<close>

definition substr :: "string \<Rightarrow> nat \<Rightarrow> nat \<Rightarrow> string" where
  "substr s pos n = take n (drop pos s)"

text \<open>The literal \<^verbatim>\<open>" \t"\<close>: space and horizontal tab.\<close>

definition blanks :: string where
  "blanks = [CHR '' '', CHR 0x09]"

text \<open>
  The body of the \<^verbatim>\<open>while\<close> loop. When \<^verbatim>\<open>first\<close> is a position,
  \<^verbatim>\<open>last\<close> is one too (lemma \<open>loop_body_token\<close> below); the branch for
  \<^verbatim>\<open>last == npos\<close> writes out the \<^verbatim>\<open>size_t\<close> arithmetic
  \<^verbatim>\<open>npos - first + 1\<close> modulo \<open>2 ^ 64\<close> and is never taken.
\<close>

function split_loop :: "string \<Rightarrow> char \<Rightarrow> string list \<Rightarrow> string list" where
  "split_loop stream d tokens =
     (case getline_delim stream d of
        None \<Rightarrow> tokens
      | Some (token, rest) \<Rightarrow>
          (case find_first_not_of token blanks of
             None \<Rightarrow> split_loop rest d tokens
           | Some first \<Rightarrow>
               (case find_last_not_of token blanks of
                  Some last' \<Rightarrow>
                    split_loop rest d (tokens @ [substr token first (last' - first + 1)])
                | None \<Rightarrow>
                    split_loop rest d
                      (tokens @ [substr token first ((2 ^ 64 - first) mod 2 ^ 64)]))))"
  by pat_completeness auto
termination
proof (relation "measure (\<lambda>(stream, d, tokens). length stream)")
  show "wf (measure (\<lambda>(stream, d, tokens). length stream))"
    by simp
next
  have shorter: "length rest < length stream"
    if "getline_delim stream d = Some (token, rest)" for stream d token rest
  proof -
    from that have "stream \<noteq> []" and "rest = drop 1 (dropWhile (\<lambda>c. c \<noteq> d) stream)"
      by (auto simp: getline_delim_def split: if_splits)
    moreover have "length (dropWhile (\<lambda>c. c \<noteq> d) stream) \<le> length stream"
      by (rule length_dropWhile_le)
    ultimately show ?thesis
      by (cases stream) auto
  qed
  fix stream :: string and d :: char and tokens :: "string list"
    and x2 :: "string \<times> string" and token rest :: string
  assume "getline_delim stream d = Some x2" and "(token, rest) = x2"
  then have "length rest < length stream"
    using shorter by metis
  then show "((rest, d, tokens), stream, d, tokens) \<in> measure (\<lambda>(stream, d, tokens). length stream)"
    by simp
  fix first :: nat
  show "((rest, d, tokens @ [substr token first ((2 ^ 64 - first) mod 2 ^ 64)]), stream, d, tokens)
      \<in> measure (\<lambda>(stream, d, tokens). length stream)"
    using \<open>length rest < length stream\<close> by simp
  fix last' :: nat
  show "((rest, d, tokens @ [substr token first (last' - first + 1)]), stream, d, tokens)
      \<in> measure (\<lambda>(stream, d, tokens). length stream)"
    using \<open>length rest < length stream\<close> by simp
qed

definition split :: "string \<Rightarrow> char \<Rightarrow> string list" where
  "split s delimiter = split_loop s delimiter []"

declare split_loop.simps [simp del]

section \<open>The argument vector (\<^verbatim>\<open>get_args\<close>, myshell.cpp lines 30-35)\<close>

text \<open>
  The callers declare \<^verbatim>\<open>char *args[MAX_ARGS]\<close> without initialising it. A cell of the
  array is indeterminate, the null pointer, or a pointer to the characters of a token.
  A store at an index outside the array does not change the array; the model records it
  in \<open>beyond\<close>, in program order, so that writing past the bound is visible.
\<close>

definition MAX_ARGS :: nat where
  "MAX_ARGS = 64"

datatype slot = Uninit | Null | Ptr string

record argv_mem =
  cells :: "slot list"
  beyond :: "(nat \<times> slot) list"

definition fresh_args :: argv_mem where
  "fresh_args = \<lparr>cells = replicate MAX_ARGS Uninit, beyond = []\<rparr>"

definition store :: "argv_mem \<Rightarrow> nat \<Rightarrow> slot \<Rightarrow> argv_mem" where
  "store args i v =
     (if i < length (cells args) then args\<lparr>cells := (cells args)[i := v]\<rparr>
      else args\<lparr>beyond := beyond args @ [(i, v)]\<rparr>)"

text \<open>
  The loop stores a pointer to token \<open>i\<close> at index \<open>i\<close>, for \<open>i\<close> from 0 up to the number
  of tokens; then the null pointer is stored at the index that is the number of tokens.
  Nothing compares an index with the size of the array.
\<close>

definition get_args :: "string list \<Rightarrow> argv_mem \<Rightarrow> argv_mem" where
  "get_args parts args =
     store (foldl (\<lambda>a i. store a i (Ptr (parts ! i))) args [0..<length parts])
       (length parts) Null"

text \<open>
  \<^verbatim>\<open>c_str()\<close> gives the characters of the token followed by a NUL character; what is
  read through the pointer is the C string, which ends before the first NUL.
\<close>

definition c_string :: "string \<Rightarrow> string" where
  "c_string s = takeWhile (\<lambda>c. c \<noteq> CHR 0x00) s"

text \<open>The null-terminated vector that \<^verbatim>\<open>execvp\<close> reads from the array.\<close>

fun argv_of :: "slot list \<Rightarrow> string list option" where
  "argv_of [] = None"
| "argv_of (Null # cs) = Some []"
| "argv_of (Ptr s # cs) = map_option ((#) (c_string s)) (argv_of cs)"
| "argv_of (Uninit # cs) = None"

section \<open>System calls and the descriptor table\<close>

text \<open>
  What a process does is recorded as the sequence of its system and library calls. A
  \<open>Dup2\<close> or \<open>Close\<close> event carries whether the call succeeded. The calls return:
  \<open>Wait\<close> and \<open>Waitpid\<close> stand for a call that blocks until a child has terminated,
  and whether the child's program ever terminates is outside this model.
\<close>

datatype event =
    Prompt
  | Pipe nat nat
  | PipeFailed
  | Fork nat
  | ForkFailed
  | Dup2 nat nat bool
  | Close nat bool
  | Perror string
  | Execvp string "string list"
  | Exit nat
  | Wait
  | Waitpid nat

definition STDIN_FILENO :: nat where
  "STDIN_FILENO = 0"

definition STDOUT_FILENO :: nat where
  "STDOUT_FILENO = 1"

definition EXIT_FAILURE :: nat where
  "EXIT_FAILURE = 1"

text \<open>
  A descriptor table is the kernel's array of a process: slot \<open>fd\<close> holds what descriptor
  \<open>fd\<close> refers to, or nothing when \<open>fd\<close> is closed. An open descriptor refers to a file
  the interpreter inherited, or to the read or write end of a pipe; pipes are numbered
  in the order of their creation.
\<close>

datatype endpoint = Inherited nat | ReadEnd nat | WriteEnd nat

type_synonym fdtable = "endpoint option list"

definition fd_get :: "fdtable \<Rightarrow> nat \<Rightarrow> endpoint option" where
  "fd_get t fd = (if fd < length t then t ! fd else None)"

definition fd_set :: "fdtable \<Rightarrow> nat \<Rightarrow> endpoint option \<Rightarrow> fdtable" where
  "fd_set t fd v =
     (if fd < length t then t[fd := v] else t @ replicate (fd - length t) None @ [v])"

text \<open>A new descriptor is the lowest number that is not open.\<close>

fun lowest_free :: "fdtable \<Rightarrow> nat" where
  "lowest_free [] = 0"
| "lowest_free (None # t) = 0"
| "lowest_free (Some e # t) = Suc (lowest_free t)"

record kstate =
  fdt :: fdtable
  npipes :: nat

text \<open>
  \<^verbatim>\<open>pipe\<close> fails when the environment says so (descriptor or file table exhausted)
  and then changes nothing; otherwise it opens the two ends of a new pipe on the two
  lowest free descriptors, the read end first.
\<close>

definition sys_pipe :: "bool \<Rightarrow> kstate \<Rightarrow> (nat \<times> nat \<times> kstate) option" where
  "sys_pipe ok st =
     (if \<not> ok then None
      else
        let r = lowest_free (fdt st);
            t1 = fd_set (fdt st) r (Some (ReadEnd (npipes st)));
            w = lowest_free t1;
            t2 = fd_set t1 w (Some (WriteEnd (npipes st)))
        in Some (r, w, st\<lparr>fdt := t2, npipes := Suc (npipes st)\<rparr>))"

text \<open>\<^verbatim>\<open>close\<close> fails (EBADF) on a descriptor that is not open.\<close>

definition sys_close :: "fdtable \<Rightarrow> nat \<Rightarrow> bool \<times> fdtable" where
  "sys_close t fd = (if fd_get t fd = None then (False, t) else (True, fd_set t fd None))"

text \<open>
  \<^verbatim>\<open>dup2(oldfd, newfd)\<close> fails when \<open>oldfd\<close> is not open or when the environment says
  so (EINTR, EBUSY), and then changes nothing. Otherwise \<open>newfd\<close> refers to what
  \<open>oldfd\<close> refers to, whatever it was before; with \<open>oldfd = newfd\<close> nothing changes.
\<close>

definition sys_dup2 :: "bool \<Rightarrow> fdtable \<Rightarrow> nat \<Rightarrow> nat \<Rightarrow> fdtable option" where
  "sys_dup2 ok t oldfd newfd =
     (if \<not> ok \<or> fd_get t oldfd = None then None
      else if oldfd = newfd then Some t
      else Some (fd_set t newfd (fd_get t oldfd)))"

text \<open>
  The environment of one call of an executor: which of its \<^verbatim>\<open>pipe\<close> calls succeed,
  what \<^verbatim>\<open>fork\<close> returns to the parent for each stage (the child's process id, or
  failure), and, in the child of each stage, whether \<^verbatim>\<open>dup2\<close> onto a descriptor and
  \<^verbatim>\<open>execvp\<close> succeed. The single-command executor has one stage, stage 0.
\<close>

record env =
  pipe_ok :: "nat \<Rightarrow> bool"
  fork_res :: "nat \<Rightarrow> nat option"
  dup2_ok :: "nat \<Rightarrow> nat \<Rightarrow> bool"
  exec_ok :: "nat \<Rightarrow> bool"

text \<open>
  How a child ends: its image is replaced by a program, it exits with a status, or its
  behaviour is undefined (a store outside the argument array, or \<^verbatim>\<open>execvp\<close> called
  with a null file name).
\<close>

datatype child_end = Replaced string "string list" | ChildExit nat | ChildUndefined

text \<open>
  The run of a child: the stage it was forked for, its process id, its calls, its
  descriptor table when it ends (the table the new program starts with, or the empty
  table after \<^verbatim>\<open>exit\<close>, which closes every descriptor of the process), and how it ends.
\<close>

record child_run =
  stage :: nat
  cpid :: nat
  cevents :: "event list"
  cfdt :: fdtable
  cend :: child_end

datatype outcome = Returned | Exited nat | Undefined

text \<open>
  The run of an executor in the interpreter process: whether it returns to its caller
  or ends the process, its calls, the interpreter's kernel state afterwards, and the
  children it forked, in the order of the forks.
\<close>

record run =
  outcome :: outcome
  events :: "event list"
  state :: kstate
  children :: "child_run list"

section \<open>The child after its descriptors are set up (lines 58-66 and 129-135)\<close>

text \<open>
  The child builds the argument vector in a fresh array and calls
  \<^verbatim>\<open>execvp(args[0], args)\<close>. When the call succeeds the image is replaced and the
  descriptor table \<open>t\<close> passes to the new program; when it fails the child reports
  \<^verbatim>\<open>Execvp failed\<close> and exits with \<open>EXIT_FAILURE\<close>. After a store outside the array, or
  with no token (the file name \<^verbatim>\<open>args[0]\<close> is then the null pointer), the behaviour is
  undefined.
\<close>

definition exec_child :: "bool \<Rightarrow> string list \<Rightarrow> fdtable \<Rightarrow> event list \<times> fdtable \<times> child_end" where
  "exec_child ok tokens t =
     (let args = get_args tokens fresh_args in
      if beyond args \<noteq> [] then ([], t, ChildUndefined)
      else
        (case (cells args ! 0, argv_of (cells args)) of
           (Ptr file, Some argv) \<Rightarrow>
             if ok then ([Execvp (c_string file) argv], t, Replaced (c_string file) argv)
             else ([Execvp (c_string file) argv, Perror ''Execvp failed'', Exit EXIT_FAILURE], [],
                   ChildExit EXIT_FAILURE)
         | _ \<Rightarrow> ([], t, ChildUndefined)))"

section \<open>The single-command executor (\<^verbatim>\<open>execute_command\<close>, lines 40-74)\<close>

text \<open>
  No token: return. First token \<^verbatim>\<open>quit\<close>: \<^verbatim>\<open>exit(0)\<close>. Otherwise \<^verbatim>\<open>fork\<close>; on
  failure report \<^verbatim>\<open>Fork failed\<close> and return; the child runs \<open>exec_child\<close> with the
  parent's descriptor table, the parent waits for this child with \<^verbatim>\<open>waitpid\<close>.
\<close>

definition execute_command :: "env \<Rightarrow> string list \<Rightarrow> kstate \<Rightarrow> run" where
  "execute_command e cmd_tokens st =
     (if cmd_tokens = [] then \<lparr>outcome = Returned, events = [], state = st, children = []\<rparr>
      else if cmd_tokens ! 0 = ''quit'' then
        \<lparr>outcome = Exited 0, events = [Exit 0], state = st, children = []\<rparr>
      else
        (case fork_res e 0 of
           None \<Rightarrow>
             \<lparr>outcome = Returned, events = [ForkFailed, Perror ''Fork failed''], state = st,
              children = []\<rparr>
         | Some pid \<Rightarrow>
             (case exec_child (exec_ok e 0) cmd_tokens (fdt st) of
                (cev, ct, ce) \<Rightarrow>
                  \<lparr>outcome = Returned, events = [Fork pid, Waitpid pid], state = st,
                   children = [\<lparr>stage = 0, cpid = pid, cevents = cev, cfdt = ct, cend = ce\<rparr>]\<rparr>)))"

section \<open>The pipeline executor (\<^verbatim>\<open>execute_pipeline\<close>, lines 79-148)\<close>

text \<open>
  The first loop (lines 86-91): one \<^verbatim>\<open>pipe\<close> call per index, the two descriptors
  stored at \<open>pipefds[2 * i]\<close> and \<open>pipefds[2 * i + 1]\<close>; the first failure ends the
  function. The result says whether the loop ran to its end.
\<close>

fun pipe_loop ::
  "env \<Rightarrow> nat list \<Rightarrow> kstate \<Rightarrow> nat list \<Rightarrow> event list \<Rightarrow> bool \<times> kstate \<times> nat list \<times> event list"
where
  "pipe_loop e [] st pipefds evs = (True, st, pipefds, evs)"
| "pipe_loop e (i # is) st pipefds evs =
     (case sys_pipe (pipe_ok e i) st of
        None \<Rightarrow> (False, st, pipefds, evs @ [PipeFailed, Perror ''Pipe failed''])
      | Some (r, w, st') \<Rightarrow> pipe_loop e is st' (pipefds @ [r, w]) (evs @ [Pipe r w]))"

text \<open>The loops of lines 124-126 and 140-142: \<^verbatim>\<open>close\<close> on each descriptor in turn.\<close>

fun close_loop :: "nat list \<Rightarrow> fdtable \<Rightarrow> event list \<Rightarrow> fdtable \<times> event list" where
  "close_loop [] t evs = (t, evs)"
| "close_loop (fd # fds) t evs =
     (case sys_close t fd of (ok, t') \<Rightarrow> close_loop fds t' (evs @ [Close fd ok]))"

text \<open>A child that ends with \<^verbatim>\<open>exit(EXIT_FAILURE)\<close> after the calls \<open>evs\<close>.\<close>

definition child_exits :: "nat \<Rightarrow> nat \<Rightarrow> event list \<Rightarrow> child_run" where
  "child_exits i pid evs =
     \<lparr>stage = i, cpid = pid, cevents = evs @ [Exit EXIT_FAILURE], cfdt = [],
      cend = ChildExit EXIT_FAILURE\<rparr>"

text \<open>
  One guarded redirection of the child of stage \<open>i\<close>: when the guard holds,
  \<^verbatim>\<open>dup2(pipefds[k], newfd)\<close>. The result is the table after the call, or nothing when
  the call failed, and the calls made so far.
\<close>

definition child_dup2 ::
  "env \<Rightarrow> nat \<Rightarrow> bool \<Rightarrow> nat list \<Rightarrow> nat \<Rightarrow> nat \<Rightarrow> fdtable \<Rightarrow> event list \<Rightarrow>
     fdtable option \<times> event list"
where
  "child_dup2 e i guard pipefds k newfd t evs =
     (if \<not> guard then (Some t, evs)
      else
        (case sys_dup2 (dup2_ok e i newfd) t (pipefds ! k) newfd of
           None \<Rightarrow> (None, evs @ [Dup2 (pipefds ! k) newfd False])
         | Some t' \<Rightarrow> (Some t', evs @ [Dup2 (pipefds ! k) newfd True])))"

text \<open>
  The child of stage \<open>i\<close> (lines 100-136), started with a copy \<open>t\<close> of the parent's
  descriptor table: the redirection of standard input when \<open>i > 0\<close>, of standard output
  when \<open>i < num_cmds - 1\<close>, each followed by \<^verbatim>\<open>perror\<close> and \<^verbatim>\<open>exit\<close> when it fails;
  then \<^verbatim>\<open>close\<close> on \<open>pipefds[k]\<close> for every \<open>k < 2 * (num_cmds - 1)\<close>; then the tokens of
  \<open>commands[i]\<close> and \<open>exec_child\<close>.
\<close>

definition pipeline_child ::
  "env \<Rightarrow> string list \<Rightarrow> nat list \<Rightarrow> nat \<Rightarrow> nat \<Rightarrow> fdtable \<Rightarrow> child_run" where
  "pipeline_child e commands pipefds i pid t =
     (let num_cmds = length commands in
      case child_dup2 e i (i > 0) pipefds ((i - 1) * 2) STDIN_FILENO t [] of
        (None, ev1) \<Rightarrow> child_exits i pid (ev1 @ [Perror ''dup2 stdin failed''])
      | (Some t1, ev1) \<Rightarrow>
          (case child_dup2 e i (i < num_cmds - 1) pipefds (i * 2 + 1) STDOUT_FILENO t1 ev1 of
             (None, ev2) \<Rightarrow> child_exits i pid (ev2 @ [Perror ''dup2 stdout failed''])
           | (Some t2, ev2) \<Rightarrow>
               (case close_loop (map ((!) pipefds) [0..<2 * (num_cmds - 1)]) t2 ev2 of
                  (t3, ev3) \<Rightarrow>
                    (case exec_child (exec_ok e i) (split (commands ! i) CHR '' '') t3 of
                       (ev4, t4, ce) \<Rightarrow>
                         \<lparr>stage = i, cpid = pid, cevents = ev3 @ ev4, cfdt = t4, cend = ce\<rparr>))))"

text \<open>
  The second loop (lines 93-137) in the parent: one \<^verbatim>\<open>fork\<close> per stage; a failure
  ends the function. The parent's descriptor table \<open>t\<close> does not change in this loop.
\<close>

fun fork_loop ::
  "env \<Rightarrow> string list \<Rightarrow> nat list \<Rightarrow> fdtable \<Rightarrow> nat list \<Rightarrow> event list \<Rightarrow> child_run list \<Rightarrow>
     bool \<times> event list \<times> child_run list"
where
  "fork_loop e commands pipefds t [] evs cs = (True, evs, cs)"
| "fork_loop e commands pipefds t (i # is) evs cs =
     (case fork_res e i of
        None \<Rightarrow> (False, evs @ [ForkFailed, Perror ''Fork failed''], cs)
      | Some pid \<Rightarrow>
          fork_loop e commands pipefds t is (evs @ [Fork pid])
            (cs @ [pipeline_child e commands pipefds i pid t]))"

text \<open>
  \<^verbatim>\<open>num_cmds\<close> is an \<^verbatim>\<open>int\<close>; for at least one command, \<open>num_cmds - 1\<close> and
  \<open>2 * (num_cmds - 1)\<close> are the natural numbers written here. For no command the
  array \<^verbatim>\<open>pipefds\<close> is declared with the negative size \<open>-2\<close>: undefined behaviour.
\<close>

definition execute_pipeline :: "env \<Rightarrow> string list \<Rightarrow> kstate \<Rightarrow> run" where
  "execute_pipeline e commands st =
     (let num_cmds = length commands in
      if num_cmds = 0 then \<lparr>outcome = Undefined, events = [], state = st, children = []\<rparr>
      else
        (case pipe_loop e [0..<num_cmds - 1] st [] [] of
           (False, st1, pipefds, ev1) \<Rightarrow>
             \<lparr>outcome = Returned, events = ev1, state = st1, children = []\<rparr>
         | (True, st1, pipefds, ev1) \<Rightarrow>
             (case fork_loop e commands pipefds (fdt st1) [0..<num_cmds] ev1 [] of
                (False, ev2, cs) \<Rightarrow>
                  \<lparr>outcome = Returned, events = ev2, state = st1, children = cs\<rparr>
              | (True, ev2, cs) \<Rightarrow>
                  (case close_loop (map ((!) pipefds) [0..<2 * (num_cmds - 1)]) (fdt st1) ev2 of
                     (t3, ev3) \<Rightarrow>
                       \<lparr>outcome = Returned, events = ev3 @ replicate num_cmds Wait,
                        state = st1\<lparr>fdt := t3\<rparr>, children = cs\<rparr>))))"

section \<open>The driver loop (\<^verbatim>\<open>main\<close>, lines 150-176)\<close>

text \<open>
  The input is the sequence of lines that \<^verbatim>\<open>getline(cin, input)\<close> will deliver; when it
  is used up, \<^verbatim>\<open>getline\<close> fails and the loop ends. \<open>envs n\<close> is the environment of the
  executor call made for line \<open>n\<close>. A session is the run of the interpreter together
  with the lines it has not read when it ends. Leaving the loop returns 0 from
  \<^verbatim>\<open>main\<close>: exit status 0.
\<close>

record session = run +
  unread :: "string list"

definition and_then :: "event list \<Rightarrow> child_run list \<Rightarrow> session \<Rightarrow> session" where
  "and_then evs cs s = s\<lparr>events := evs @ events s, children := cs @ children s\<rparr>"

fun main_loop :: "(nat \<Rightarrow> env) \<Rightarrow> nat \<Rightarrow> string list \<Rightarrow> kstate \<Rightarrow> session" where
  "main_loop envs n [] st =
     \<lparr>outcome = Exited 0, events = [Prompt], state = st, children = [], unread = []\<rparr>"
| "main_loop envs n (input # rest) st =
     (if input = [] then and_then [Prompt] [] (main_loop envs (Suc n) rest st)
      else if input = ''quit'' then
        \<lparr>outcome = Exited 0, events = [Prompt], state = st, children = [], unread = rest\<rparr>
      else
        let commands = split input CHR ''|'' in
        if commands = [] then and_then [Prompt] [] (main_loop envs (Suc n) rest st)
        else
          let r = (if length commands = 1
                   then execute_command (envs n) (split (commands ! 0) CHR '' '') st
                   else execute_pipeline (envs n) commands st)
          in
            (case outcome r of
               Returned \<Rightarrow>
                 and_then (Prompt # events r) (children r) (main_loop envs (Suc n) rest (state r))
             | _ \<Rightarrow>
                 \<lparr>outcome = outcome r, events = Prompt # events r, state = state r,
                  children = children r, unread = rest\<rparr>))"

text \<open>
  An interpreter started with the three standard streams open, and an environment in
  which every call succeeds; they serve as concrete inputs.
\<close>

definition st0 :: kstate where
  "st0 = \<lparr>fdt = [Some (Inherited 0), Some (Inherited 1), Some (Inherited 2)], npipes = 0\<rparr>"

definition env_ok :: env where
  "env_ok =
     \<lparr>pipe_ok = (\<lambda>i. True), fork_res = (\<lambda>i. Some (100 + i)), dup2_ok = (\<lambda>i fd. True),
      exec_ok = (\<lambda>i. True)\<rparr>"

section \<open>The tokenizer as the specification words it\<close>

text \<open>
  Section 4.1 of the specification: split the line on every occurrence of the delimiter,
  trim each piece of leading and trailing space and horizontal tab, drop the pieces that
  are empty after trimming. These definitions follow the specification's words, not the
  source; they are compared with \<open>split\<close> below.
\<close>

definition is_blank :: "char \<Rightarrow> bool" where
  "is_blank c = (c = CHR '' '' \<or> c = CHR 0x09)"

definition trim :: "string \<Rightarrow> string" where
  "trim s = rev (dropWhile is_blank (rev (dropWhile is_blank s)))"

primrec split_on :: "char \<Rightarrow> string \<Rightarrow> string list" where
  "split_on d [] = [[]]"
| "split_on d (c # s) =
     (if c = d then [] # split_on d s
      else (c # hd (split_on d s)) # tl (split_on d s))"

definition tokenize_spec :: "string \<Rightarrow> char \<Rightarrow> string list" where
  "tokenize_spec line delimiter = filter (\<lambda>t. t \<noteq> []) (map trim (split_on delimiter line))"

text \<open>
  Modelled from the spec: \<^verbatim>\<open>tokenize_to_string\<close> (section 8, tokenizer idempotence) is
  not a function of the source. It writes a token sequence back as one string, the
  delimiter between consecutive tokens.
\<close>

fun tokenize_to_string :: "char \<Rightarrow> string list \<Rightarrow> string" where
  "tokenize_to_string d [] = []"
| "tokenize_to_string d [t] = t"
| "tokenize_to_string d (t # ts) = t @ d # tokenize_to_string d ts"

text \<open>A token as section 3 of the specification describes it, for the delimiter \<open>d\<close>.\<close>

definition token_ok :: "char \<Rightarrow> string \<Rightarrow> bool" where
  "token_ok d t \<longleftrightarrow> t \<noteq> [] \<and> \<not> is_blank (hd t) \<and> \<not> is_blank (last t) \<and> d \<notin> set t"

section \<open>Vocabulary for traces and descriptor tables\<close>

text \<open>The \<open>k\<close>-th descriptor handed out by a run of \<^verbatim>\<open>pipe\<close> calls refers to this end.\<close>

definition end_of :: "nat \<Rightarrow> nat \<Rightarrow> endpoint" where
  "end_of base k = (if even k then ReadEnd (base + k div 2) else WriteEnd (base + k div 2))"

text \<open>
  \<open>pipes_made st fds st'\<close>: from \<open>st\<close>, successful \<^verbatim>\<open>pipe\<close> calls handed out the
  descriptors \<open>fds\<close> in this order and led to \<open>st'\<close>.
\<close>

definition pipes_made :: "kstate \<Rightarrow> nat list \<Rightarrow> kstate \<Rightarrow> bool" where
  "pipes_made st fds st' \<longleftrightarrow>
     distinct fds \<and> even (length fds) \<and>
     (\<forall>fd \<in> set fds. fd_get (fdt st) fd = None) \<and>
     (\<forall>k < length fds. fd_get (fdt st') (fds ! k) = Some (end_of (npipes st) k)) \<and>
     (\<forall>fd. fd \<notin> set fds \<longrightarrow> fd_get (fdt st') fd = fd_get (fdt st) fd) \<and>
     npipes st' = npipes st + length fds div 2"

text \<open>
  The parts of a trace: the successful \<^verbatim>\<open>pipe\<close> calls that return the descriptors
  \<open>fds\<close> two by two, and back from a trace to the descriptors its \<^verbatim>\<open>pipe\<close> calls
  returned (the contents of \<^verbatim>\<open>pipefds\<close>, in order); one successful \<^verbatim>\<open>close\<close> per
  descriptor; the successful \<^verbatim>\<open>fork\<close> calls of the stages \<open>is\<close>, and the children they
  start from the table \<open>t\<close>.
\<close>

fun pipe_events :: "nat list \<Rightarrow> event list" where
  "pipe_events (r # w # fds) = Pipe r w # pipe_events fds"
| "pipe_events fds = []"

fun pipe_fds_of :: "event list \<Rightarrow> nat list" where
  "pipe_fds_of [] = []"
| "pipe_fds_of (Pipe r w # evs) = r # w # pipe_fds_of evs"
| "pipe_fds_of (ev # evs) = pipe_fds_of evs"

definition closes :: "nat list \<Rightarrow> event list" where
  "closes fds = map (\<lambda>fd. Close fd True) fds"

definition forks :: "env \<Rightarrow> nat list \<Rightarrow> event list" where
  "forks e is = map (\<lambda>i. Fork (the (fork_res e i))) is"

definition spawned :: "env \<Rightarrow> string list \<Rightarrow> nat list \<Rightarrow> fdtable \<Rightarrow> nat list \<Rightarrow> child_run list" where
  "spawned e commands pipefds t is =
     map (\<lambda>i. pipeline_child e commands pipefds i (the (fork_res e i)) t) is"

text \<open>Kinds of calls; a failed call is a call of its kind.\<close>

definition is_close :: "event \<Rightarrow> bool" where
  "is_close ev = (case ev of Close fd ok \<Rightarrow> True | _ \<Rightarrow> False)"

definition is_dup2 :: "event \<Rightarrow> bool" where
  "is_dup2 ev = (case ev of Dup2 oldfd newfd ok \<Rightarrow> True | _ \<Rightarrow> False)"

definition is_execvp :: "event \<Rightarrow> bool" where
  "is_execvp ev = (case ev of Execvp file argv \<Rightarrow> True | _ \<Rightarrow> False)"

text \<open>The descriptor slots of a child after its redirections, as a function of the slot.\<close>

definition redirected ::
  "nat \<Rightarrow> nat \<Rightarrow> nat list \<Rightarrow> (nat \<Rightarrow> endpoint option) \<Rightarrow> nat \<Rightarrow> endpoint option" where
  "redirected num_cmds i pipefds g =
     (let g1 = (if i > 0 then g(STDIN_FILENO := g (pipefds ! ((i - 1) * 2))) else g)
      in if i < num_cmds - 1 then g1(STDOUT_FILENO := g1 (pipefds ! (i * 2 + 1))) else g1)"

text \<open>The redirection calls of the child of stage \<open>i\<close>, with their results.\<close>

definition dup_in :: "nat \<Rightarrow> nat list \<Rightarrow> bool \<Rightarrow> event list" where
  "dup_in i pipefds ok =
     (if i > 0 then [Dup2 (pipefds ! ((i - 1) * 2)) STDIN_FILENO ok] else [])"

definition dup_out :: "nat \<Rightarrow> nat \<Rightarrow> nat list \<Rightarrow> bool \<Rightarrow> event list" where
  "dup_out num_cmds i pipefds ok =
     (if i < num_cmds - 1 then [Dup2 (pipefds ! (i * 2 + 1)) STDOUT_FILENO ok] else [])"

definition is_fork :: "event \<Rightarrow> bool" where
  "is_fork ev = (case ev of Fork pid \<Rightarrow> True | ForkFailed \<Rightarrow> True | _ \<Rightarrow> False)"

definition is_pipe :: "event \<Rightarrow> bool" where
  "is_pipe ev = (case ev of Pipe r w \<Rightarrow> True | PipeFailed \<Rightarrow> True | _ \<Rightarrow> False)"


text \<open>
  What claim C1 says of the child \<open>c\<close> of stage \<open>i\<close> among \<open>n\<close> stages, for the
  descriptors \<open>fds\<close> of the pipeline. When no redirection fails, the child's calls begin
  with its redirections followed by one successful \<^verbatim>\<open>close\<close> of each descriptor of
  \<open>fds\<close>, in order, and no \<^verbatim>\<open>close\<close> or \<^verbatim>\<open>dup2\<close> call comes after them: whatever
  follows, \<^verbatim>\<open>execvp\<close> included, follows the last \<^verbatim>\<open>close\<close>. Only when a redirection
  fails does the child end without \<^verbatim>\<open>close\<close> calls: its calls are then the redirections
  up to the failed one, the report, and \<^verbatim>\<open>exit\<close>, which closes every descriptor of the
  process. In each case no descriptor of \<open>fds\<close> is open in the child's table when it
  ends.
\<close>

definition child_closes_all :: "env \<Rightarrow> nat \<Rightarrow> nat list \<Rightarrow> nat \<Rightarrow> child_run \<Rightarrow> bool" where
  "child_closes_all e n fds i c \<longleftrightarrow>
     stage c = i \<and>
     (\<forall>fd \<in> set fds. fd_get (cfdt c) fd = None) \<and>
     (if 0 < i \<and> \<not> dup2_ok e i STDIN_FILENO then
        cevents c = dup_in i fds False @ [Perror ''dup2 stdin failed'', Exit EXIT_FAILURE] \<and>
        cend c = ChildExit EXIT_FAILURE
      else if i < n - 1 \<and> \<not> dup2_ok e i STDOUT_FILENO then
        cevents c = dup_in i fds True @ dup_out n i fds False @
          [Perror ''dup2 stdout failed'', Exit EXIT_FAILURE] \<and>
        cend c = ChildExit EXIT_FAILURE
      else
        take (length (dup_in i fds True @ dup_out n i fds True @ closes fds)) (cevents c) =
          dup_in i fds True @ dup_out n i fds True @ closes fds \<and>
        (\<forall>ev \<in> set (drop (length (dup_in i fds True @ dup_out n i fds True @ closes fds))
                       (cevents c)).
           \<not> is_close ev \<and> \<not> is_dup2 ev))"

text \<open>What claim C2 says of the child \<open>c\<close> of stage \<open>i\<close> among \<open>n\<close> stages.\<close>

definition stage_wired ::
  "env \<Rightarrow> kstate \<Rightarrow> nat \<Rightarrow> nat list \<Rightarrow> nat \<Rightarrow> child_run \<Rightarrow> bool" where
  "stage_wired e st n fds i c \<longleftrightarrow>
     stage c = i \<and>
     ((\<exists>oldfd ok. Dup2 oldfd STDIN_FILENO ok \<in> set (cevents c)) \<longleftrightarrow> 0 < i) \<and>
     (0 < i \<longrightarrow>
        (\<exists>rest. cevents c =
           Dup2 (fds ! ((i - 1) * 2)) STDIN_FILENO (dup2_ok e i STDIN_FILENO) # rest)) \<and>
     (i = 0 \<or> dup2_ok e i STDIN_FILENO \<longrightarrow>
        ((\<exists>oldfd ok. Dup2 oldfd STDOUT_FILENO ok \<in> set (cevents c)) \<longleftrightarrow> i < n - 1) \<and>
        (i < n - 1 \<longrightarrow>
           Dup2 (fds ! (i * 2 + 1)) STDOUT_FILENO (dup2_ok e i STDOUT_FILENO) \<in> set (cevents c))) \<and>
     ((0 < i \<and> \<not> dup2_ok e i STDIN_FILENO) \<or> (i < n - 1 \<and> \<not> dup2_ok e i STDOUT_FILENO) \<longrightarrow>
        cend c = ChildExit EXIT_FAILURE \<and> EXIT_FAILURE \<noteq> 0 \<and>
        (\<exists>pre msg. cevents c = pre @ [Perror msg, Exit EXIT_FAILURE]) \<and>
        (\<forall>ev \<in> set (cevents c). \<not> is_execvp ev)) \<and>
     (\<forall>ev \<in> set (dropWhile (\<lambda>ev. \<not> is_execvp ev) (cevents c)). \<not> is_dup2 ev) \<and>
     (fd_get (fdt st) STDIN_FILENO \<noteq> None \<and> fd_get (fdt st) STDOUT_FILENO \<noteq> None \<and>
      (\<exists>file argv. cend c = Replaced file argv) \<longrightarrow>
        fd_get (cfdt c) STDIN_FILENO =
          (if 0 < i then Some (ReadEnd (npipes st + (i - 1))) else fd_get (fdt st) STDIN_FILENO) \<and>
        fd_get (cfdt c) STDOUT_FILENO =
          (if i < n - 1 then Some (WriteEnd (npipes st + i)) else fd_get (fdt st) STDOUT_FILENO))"


text \<open>The executor call that the driver makes for a line with at least one command.\<close>

definition dispatch :: "env \<Rightarrow> string list \<Rightarrow> kstate \<Rightarrow> run" where
  "dispatch e commands st =
     (if length commands = 1 then execute_command e (split (commands ! 0) CHR '' '') st
      else execute_pipeline e commands st)"

text \<open>
  The line parses to a single command whose first token is \<^verbatim>\<open>quit\<close>, in the
  specification's words.
\<close>

definition quits :: "string \<Rightarrow> bool" where
  "quits input \<longleftrightarrow>
     (case split input CHR ''|'' of
        [c] \<Rightarrow> (case split c CHR '' '' of [] \<Rightarrow> False | t # ts \<Rightarrow> t = ''quit'')
      | _ \<Rightarrow> False)"

text \<open>\<^verbatim>\<open>wait(NULL)\<close> in place of \<^verbatim>\<open>waitpid(pid, &status, 0)\<close>.\<close>

definition reap_any :: "event \<Rightarrow> event" where
  "reap_any ev = (case ev of Waitpid pid \<Rightarrow> Wait | _ \<Rightarrow> ev)"

text \<open>An environment whose second \<^verbatim>\<open>pipe\<close> call fails, and one whose second \<^verbatim>\<open>fork\<close> call fails.\<close>

definition env_pipe1 :: env where
  "env_pipe1 = env_ok\<lparr>pipe_ok := (\<lambda>i. i < 1)\<rparr>"

definition env_fork1 :: env where
  "env_fork1 = env_ok\<lparr>fork_res := (\<lambda>i. if i = 1 then None else Some (100 + i))\<rparr>"

text \<open>An environment in which the redirection of standard input fails in the child of stage 1.\<close>

definition env_dup2 :: env where
  "env_dup2 = env_ok\<lparr>dup2_ok := (\<lambda>i fd. \<not> (i = 1 \<and> fd = 0))\<rparr>"

section \<open>Concrete runs\<close>

text \<open>Runs of the model on concrete inputs, evaluated from the definitions.\<close>

lemma env_ok_simps [simp]:
  "pipe_ok env_ok i" "fork_res env_ok i = Some (100 + i)" "dup2_ok env_ok i fd" "exec_ok env_ok i"
  by (simp_all add: env_ok_def)

lemma run_ls_wc:
  "execute_pipeline env_ok [''ls'', ''wc''] st0 =
     \<lparr>outcome = Returned,
      events = [Pipe 3 4, Fork 100, Fork 101, Close 3 True, Close 4 True, Wait, Wait],
      state = \<lparr>fdt = [Some (Inherited 0), Some (Inherited 1), Some (Inherited 2), None, None],
               npipes = 1\<rparr>,
      children =
        [\<lparr>stage = 0, cpid = 100,
          cevents = [Dup2 4 1 True, Close 3 True, Close 4 True, Execvp ''ls'' [''ls'']],
          cfdt = [Some (Inherited 0), Some (WriteEnd 0), Some (Inherited 2), None, None],
          cend = Replaced ''ls'' [''ls'']\<rparr>,
         \<lparr>stage = 1, cpid = 101,
          cevents = [Dup2 3 0 True, Close 3 True, Close 4 True, Execvp ''wc'' [''wc'']],
          cfdt = [Some (ReadEnd 0), Some (Inherited 1), Some (Inherited 2), None, None],
          cend = Replaced ''wc'' [''wc'']\<rparr>]\<rparr>"
  by code_simp

lemma run_pipe_fails:
  "execute_pipeline env_pipe1 [''ls'', ''sort'', ''wc''] st0 =
     \<lparr>outcome = Returned, events = [Pipe 3 4, PipeFailed, Perror ''Pipe failed''],
      state = \<lparr>fdt = [Some (Inherited 0), Some (Inherited 1), Some (Inherited 2),
                       Some (ReadEnd 0), Some (WriteEnd 0)], npipes = 1\<rparr>,
      children = []\<rparr>"
  by code_simp

lemma run_fork_fails:
  "execute_pipeline env_fork1 [''ls'', ''wc''] st0 =
     \<lparr>outcome = Returned, events = [Pipe 3 4, Fork 100, ForkFailed, Perror ''Fork failed''],
      state = \<lparr>fdt = [Some (Inherited 0), Some (Inherited 1), Some (Inherited 2),
                       Some (ReadEnd 0), Some (WriteEnd 0)], npipes = 1\<rparr>,
      children =
        [\<lparr>stage = 0, cpid = 100,
          cevents = [Dup2 4 1 True, Close 3 True, Close 4 True, Execvp ''ls'' [''ls'']],
          cfdt = [Some (Inherited 0), Some (WriteEnd 0), Some (Inherited 2), None, None],
          cend = Replaced ''ls'' [''ls'']\<rparr>]\<rparr>"
  by code_simp

lemma env_dup2_simps [simp]:
  "pipe_ok env_dup2 i" "fork_res env_dup2 i = Some (100 + i)"
  "dup2_ok env_dup2 i fd \<longleftrightarrow> \<not> (i = 1 \<and> fd = 0)" "exec_ok env_dup2 i"
  by (simp_all add: env_dup2_def)

lemma run_dup2_fails:
  "execute_pipeline env_dup2 [''quit'', ''wc''] st0 =
     \<lparr>outcome = Returned,
      events = [Pipe 3 4, Fork 100, Fork 101, Close 3 True, Close 4 True, Wait, Wait],
      state = \<lparr>fdt = [Some (Inherited 0), Some (Inherited 1), Some (Inherited 2), None, None],
               npipes = 1\<rparr>,
      children =
        [\<lparr>stage = 0, cpid = 100,
          cevents = [Dup2 4 1 True, Close 3 True, Close 4 True, Execvp ''quit'' [''quit'']],
          cfdt = [Some (Inherited 0), Some (WriteEnd 0), Some (Inherited 2), None, None],
          cend = Replaced ''quit'' [''quit'']\<rparr>,
         \<lparr>stage = 1, cpid = 101,
          cevents = [Dup2 3 0 False, Perror ''dup2 stdin failed'', Exit 1],
          cfdt = [],
          cend = ChildExit 1\<rparr>]\<rparr>"
  by code_simp


lemma session_quit:
  "quits '' quit  now''" "\<not> quits ''ls | wc''"
  unfolding quits_def by code_simp+

section \<open>Properties of the tokenizer\<close>

lemma is_blank_blanks: "is_blank c \<longleftrightarrow> c \<in> set blanks"
  by (auto simp: is_blank_def blanks_def)

lemma find_first_not_of_eq:
  "find_first_not_of s cs =
     (if \<forall>c \<in> set s. c \<in> set cs then None else Some (length (takeWhile (\<lambda>c. c \<in> set cs) s)))"
  by (induction s) auto

lemma find_last_not_of_eq:
  "find_last_not_of s cs =
     (if \<forall>c \<in> set s. c \<in> set cs then None
      else Some (length s - 1 - length (takeWhile (\<lambda>c. c \<in> set cs) (rev s))))"
  by (simp add: find_last_not_of_def find_first_not_of_eq)

lemma all_dropWhile_iff: "(\<forall>x \<in> set (dropWhile P s). P x) \<longleftrightarrow> (\<forall>x \<in> set s. P x)"
  by (induction s) auto

lemma trim_Nil_iff: "trim s = [] \<longleftrightarrow> (\<forall>c \<in> set s. is_blank c)"
  by (simp add: trim_def dropWhile_eq_Nil_conv all_dropWhile_iff)

lemma trim_eq_take_drop:
  assumes "\<not> (\<forall>c \<in> set s. is_blank c)"
  shows "trim s = take (length s - length (takeWhile is_blank (rev s)) - length (takeWhile is_blank s))
           (drop (length (takeWhile is_blank s)) s)"
proof -
  define a where "a = takeWhile is_blank s"
  define m where "m = dropWhile is_blank s"
  have s: "s = a @ m" by (simp add: a_def m_def)
  from assms obtain c where c: "c \<in> set m" "\<not> is_blank c"
    unfolding m_def using all_dropWhile_iff [of is_blank s] by blast
  have "takeWhile is_blank (rev m @ rev a) = takeWhile is_blank (rev m)"
    by (rule takeWhile_append1 [of c]) (use c in auto)
  then have tw: "takeWhile is_blank (rev s) = takeWhile is_blank (rev m)"
    by (simp add: s)
  have "trim s = rev (dropWhile is_blank (rev m))"
    by (simp add: trim_def m_def)
  also have "\<dots> = rev (drop (length (takeWhile is_blank (rev m))) (rev m))"
    by (simp add: dropWhile_eq_drop)
  also have "\<dots> = take (length m - length (takeWhile is_blank (rev m))) m"
    by (simp add: rev_drop)
  finally have t: "trim s = take (length m - length (takeWhile is_blank (rev m))) m" .
  have "drop (length a) s = m" and "length s - length (takeWhile is_blank (rev m)) - length a
      = length m - length (takeWhile is_blank (rev m))"
    by (simp_all add: s)
  then show ?thesis
    unfolding tw a_def [symmetric] t by simp
qed

lemma blank_set_eq: "(\<lambda>c. c \<in> set blanks) = is_blank"
  by (simp add: fun_eq_iff is_blank_blanks)

text \<open>What one pass of the loop body appends for the piece \<open>token\<close>.\<close>

lemma loop_body_blank:
  "trim token = [] \<Longrightarrow> find_first_not_of token blanks = None"
  by (simp add: find_first_not_of_eq trim_Nil_iff is_blank_blanks)

lemma loop_body_token:
  assumes "trim token \<noteq> []"
  shows "\<exists>first last'. find_first_not_of token blanks = Some first \<and>
           find_last_not_of token blanks = Some last' \<and>
           substr token first (last' - first + 1) = trim token"
proof -
  from assms have nb: "\<not> (\<forall>c \<in> set token. is_blank c)"
    by (simp add: trim_Nil_iff)
  let ?a = "length (takeWhile is_blank token)"
  let ?b = "length (takeWhile is_blank (rev token))"
  have f: "find_first_not_of token blanks = Some ?a"
    using nb by (simp add: find_first_not_of_eq blank_set_eq is_blank_blanks [symmetric])
  have l: "find_last_not_of token blanks = Some (length token - 1 - ?b)"
    using nb by (simp add: find_last_not_of_eq blank_set_eq is_blank_blanks [symmetric])
  have len: "length (trim token) = length token - ?b - ?a"
    using nb by (simp add: trim_eq_take_drop)
  with assms have "?a + ?b < length token"
    by (cases "length token - ?b - ?a") auto
  then have "length token - 1 - ?b - ?a + 1 = length token - ?b - ?a"
    by arith
  then have "substr token ?a (length token - 1 - ?b - ?a + 1) = trim token"
    using nb by (simp add: substr_def trim_eq_take_drop)
  with f l show ?thesis by blast
qed

lemma split_on_unfold:
  "split_on d s = takeWhile (\<lambda>c. c \<noteq> d) s #
     (case dropWhile (\<lambda>c. c \<noteq> d) s of [] \<Rightarrow> [] | c # r \<Rightarrow> split_on d r)"
  by (induction s) (auto split: list.splits)

lemma split_loop_eq:
  "split_loop stream d tokens = tokens @ tokenize_spec stream d"
proof (induction stream d tokens rule: split_loop.induct)
  case (1 stream d tokens)
  show ?case
  proof (cases "stream = []")
    case True
    then have "split_loop stream d tokens = tokens"
      by (subst split_loop.simps) (simp add: getline_delim_def)
    with True show ?thesis
      by (simp add: tokenize_spec_def trim_def)
  next
    case False
    define token where "token = takeWhile (\<lambda>c. c \<noteq> d) stream"
    define rest where "rest = drop 1 (dropWhile (\<lambda>c. c \<noteq> d) stream)"
    have g: "getline_delim stream d = Some (token, rest)"
      using False by (simp add: getline_delim_def token_def rest_def)
    have unf: "split_on d stream = token #
        (case dropWhile (\<lambda>c. c \<noteq> d) stream of [] \<Rightarrow> [] | c # r \<Rightarrow> split_on d r)"
      unfolding token_def by (rule split_on_unfold)
    have so: "filter (\<lambda>t. t \<noteq> []) (map trim (split_on d stream)) =
        filter (\<lambda>t. t \<noteq> []) (map trim (token # split_on d rest))"
    proof (cases "dropWhile (\<lambda>c. c \<noteq> d) stream")
      case Nil
      have "rest = []" and "split_on d stream = [token]"
        unfolding rest_def unf Nil by simp_all
      then show ?thesis
        by (simp add: trim_def)
    next
      case (Cons c r)
      have "split_on d stream = token # split_on d rest"
        unfolding rest_def unf Cons by simp
      then show ?thesis
        by simp
    qed
    have spec: "tokenize_spec stream d =
        (if trim token = [] then [] else [trim token]) @ tokenize_spec rest d"
      unfolding tokenize_spec_def so by simp
    show ?thesis
    proof (cases "trim token = []")
      case True
      then have f: "find_first_not_of token blanks = None"
        by (rule loop_body_blank)
      have "split_loop stream d tokens = split_loop rest d tokens"
        by (subst split_loop.simps) (simp add: g f)
      also have "\<dots> = tokens @ tokenize_spec rest d"
        using g f by (rule "1.IH"(1) [OF _ refl]) 
      finally show ?thesis
        using True by (simp add: spec)
    next
      case False
      then obtain first last' where f: "find_first_not_of token blanks = Some first"
        and l: "find_last_not_of token blanks = Some last'"
        and t: "substr token first (last' - first + 1) = trim token"
        using loop_body_token by blast
      have "split_loop stream d tokens = split_loop rest d (tokens @ [trim token])"
        using t by (subst split_loop.simps) (simp add: g f l)
      also have "\<dots> = (tokens @ [trim token]) @ tokenize_spec rest d"
        using "1.IH"(3) [OF g refl f l] unfolding t .
      finally show ?thesis
        using False by (simp add: spec)
    qed
  qed
qed

lemma split_eq_tokenize_spec: "split s d = tokenize_spec s d"
  by (simp add: split_def split_loop_eq)

lemma trim_ends:
  assumes "trim s \<noteq> []"
  shows "\<not> is_blank (hd (trim s))" and "\<not> is_blank (last (trim s))"
proof -
  define m where "m = dropWhile is_blank s"
  define k where "k = dropWhile is_blank (rev m)"
  have t: "trim s = rev k"
    by (simp add: trim_def m_def k_def)
  with assms have k: "k \<noteq> []" by simp
  then have "\<not> is_blank (hd k)"
    unfolding k_def by (rule hd_dropWhile)
  then show "\<not> is_blank (last (trim s))"
    using k by (simp add: t last_rev)
  from k have m: "m \<noteq> []"
    by (auto simp: k_def)
  have "rev m = takeWhile is_blank (rev m) @ k"
    by (simp add: k_def)
  then have "last (rev m) = last k"
    using k by (metis last_appendR)
  then have "hd (rev k) = hd m"
    using k m by (simp add: hd_rev last_rev)
  moreover have "\<not> is_blank (hd m)"
    using m unfolding m_def by (rule hd_dropWhile)
  ultimately show "\<not> is_blank (hd (trim s))"
    by (simp add: t)
qed

lemma set_trim: "set (trim s) \<subseteq> set s"
proof
  fix x
  assume "x \<in> set (trim s)"
  then have "x \<in> set (dropWhile is_blank (rev (dropWhile is_blank s)))"
    by (simp add: trim_def)
  then have "x \<in> set (rev (dropWhile is_blank s))"
    by (rule set_dropWhileD)
  then have "x \<in> set (dropWhile is_blank s)"
    by simp
  then show "x \<in> set s"
    by (rule set_dropWhileD)
qed

lemma trim_id:
  assumes "t \<noteq> []" "\<not> is_blank (hd t)" "\<not> is_blank (last t)"
  shows "trim t = t"
proof -
  from assms have "dropWhile is_blank t = t"
    by (cases t) auto
  moreover from assms have "dropWhile is_blank (rev t) = rev t"
    by (cases "rev t") (auto simp: hd_rev [symmetric] simp del: rev_is_Nil_conv)
  ultimately show ?thesis
    by (simp add: trim_def)
qed

lemma split_on_no_delim: "p \<in> set (split_on d s) \<Longrightarrow> d \<notin> set p"
proof (induction s arbitrary: p)
  case Nil
  then show ?case by simp
next
  case (Cons c s)
  have ne: "split_on d s \<noteq> []"
    by (cases s) auto
  then have "split_on d s = hd (split_on d s) # tl (split_on d s)"
    by simp
  then have "hd (split_on d s) \<in> set (split_on d s)"
    and "set (tl (split_on d s)) \<subseteq> set (split_on d s)"
    by (metis list.set_intros(1), metis set_subset_Cons)
  with Cons show ?case
    by (auto split: if_splits)
qed

lemma split_on_single: "d \<notin> set t \<Longrightarrow> split_on d t = [t]"
  by (induction t) auto

lemma split_on_append: "d \<notin> set t \<Longrightarrow> split_on d (t @ d # r) = t # split_on d r"
  by (induction t) auto

lemma tokenize_spec_tokens: "t \<in> set (tokenize_spec s d) \<Longrightarrow> token_ok d t"
  using trim_ends split_on_no_delim set_trim
  by (fastforce simp: tokenize_spec_def token_ok_def)

lemma tokenize_spec_join:
  "\<forall>t \<in> set ts. token_ok d t \<Longrightarrow> tokenize_spec (tokenize_to_string d ts) d = ts"
proof (induction d ts rule: tokenize_to_string.induct)
  case (1 d)
  then show ?case by (simp add: tokenize_spec_def trim_def)
next
  case (2 d t)
  then show ?case
    by (simp add: tokenize_spec_def token_ok_def split_on_single trim_id)
next
  case (3 d t v va)
  then have "tokenize_spec (tokenize_to_string d (v # va)) d = v # va"
    by simp
  with 3(2) show ?case
    by (simp add: tokenize_spec_def token_ok_def split_on_append trim_id)
qed

text \<open>
  Claim C6. For every input string and delimiter, \<open>split\<close> computes what the
  specification describes: the pieces between the occurrences of the delimiter, each
  trimmed of leading and trailing space and tab, the empty ones dropped. Hence every
  token is non-empty, neither starts nor ends with a space or a tab, and contains no
  delimiter. Tokenizing \<^verbatim>\<open>"  a   |   | b  "\<close> on the pipe character yields exactly
  the tokens \<^verbatim>\<open>a\<close> and \<^verbatim>\<open>b\<close>.
\<close>

theorem split_tokenizes:
  "split s d = tokenize_spec s d \<and>
   (\<forall>t \<in> set (split s d).
      t \<noteq> [] \<and> \<not> is_blank (hd t) \<and> \<not> is_blank (last t) \<and> d \<notin> set t) \<and>
   split ''  a   |   | b  '' CHR ''|'' = [''a'', ''b'']"
proof (intro conjI ballI)
  show "split s d = tokenize_spec s d"
    by (rule split_eq_tokenize_spec)
next
  fix t
  assume "t \<in> set (split s d)"
  then have "token_ok d t"
    by (simp add: split_eq_tokenize_spec tokenize_spec_tokens)
  then show "t \<noteq> []" and "\<not> is_blank (hd t)" and "\<not> is_blank (last t)" and "d \<notin> set t"
    by (simp_all add: token_ok_def)
next
  show "split ''  a   |   | b  '' CHR ''|'' = [''a'', ''b'']"
    by code_simp
qed

theorem split_tokenizes_witness:
  "''ls'' \<in> set (split [CHR 0x09, CHR ''l'', CHR ''s'', CHR '' '', CHR '' '', CHR ''-'', CHR ''l''] CHR '' '') \<and>
   ''ls'' \<noteq> [] \<and> \<not> is_blank (hd ''ls'') \<and> \<not> is_blank (last ''ls'') \<and> CHR '' '' \<notin> set ''ls''"
proof -
  let ?line = "[CHR 0x09, CHR ''l'', CHR ''s'', CHR '' '', CHR '' '', CHR ''-'', CHR ''l'']"
  have "split ?line CHR '' '' = [''ls'', ''-l'']"
    by code_simp
  then have m: "''ls'' \<in> set (split ?line CHR '' '')"
    by simp
  from split_tokenizes [of ?line "CHR '' ''"]
  have "\<forall>t \<in> set (split ?line CHR '' '').
      t \<noteq> [] \<and> \<not> is_blank (hd t) \<and> \<not> is_blank (last t) \<and> CHR '' '' \<notin> set t"
    by blast
  with m show ?thesis
    by blast
qed

text \<open>
  Claim C8. Tokenizing is idempotent under re-serialization: for every string and
  delimiter, writing the tokens of \<open>split s d\<close> back into one string with the delimiter
  between them and tokenizing that string again gives the same tokens.
\<close>

theorem split_idempotent:
  "split (tokenize_to_string d (split s d)) d = split s d"
  by (simp add: split_eq_tokenize_spec tokenize_spec_join tokenize_spec_tokens)

section \<open>The descriptor table\<close>

lemma fd_get_Nil [simp]: "fd_get [] fd = None"
  by (simp add: fd_get_def)

lemma fd_get_fd_set: "fd_get (fd_set t fd v) fd' = (if fd' = fd then v else fd_get t fd')"
  by (auto simp: fd_get_def fd_set_def nth_append)

lemma lowest_free_closed: "fd_get t (lowest_free t) = None"
  by (induction t rule: lowest_free.induct) (auto simp: fd_get_def)

lemma sys_close_open:
  "fd_get t fd \<noteq> None \<Longrightarrow> sys_close t fd = (True, fd_set t fd None)"
  by (simp add: sys_close_def)

lemma sys_dup2_Some:
  "sys_dup2 ok t oldfd newfd = Some t' \<Longrightarrow>
     ok \<and> fd_get t oldfd \<noteq> None \<and> fd_get t' = (fd_get t)(newfd := fd_get t oldfd)"
  by (auto simp: sys_dup2_def fd_get_fd_set fun_eq_iff split: if_splits)

lemma sys_dup2_None:
  "sys_dup2 ok t oldfd newfd = None \<longleftrightarrow> \<not> ok \<or> fd_get t oldfd = None"
  by (simp add: sys_dup2_def)

lemma pipes_made_Nil: "pipes_made st [] st"
  by (simp add: pipes_made_def)

lemma sys_pipe_fail [simp]: "sys_pipe False st = None"
  by (simp add: sys_pipe_def)

lemma sys_pipe_ok:
  obtains r w st' where "sys_pipe True st = Some (r, w, st')" "pipes_made st [r, w] st'"
proof -
  define r where "r = lowest_free (fdt st)"
  define t1 where "t1 = fd_set (fdt st) r (Some (ReadEnd (npipes st)))"
  define w where "w = lowest_free t1"
  define st' where "st' = st\<lparr>fdt := fd_set t1 w (Some (WriteEnd (npipes st))), npipes := Suc (npipes st)\<rparr>"
  have s: "sys_pipe True st = Some (r, w, st')"
    by (simp add: sys_pipe_def Let_def r_def t1_def w_def st'_def)
  have r: "fd_get (fdt st) r = None"
    unfolding r_def by (rule lowest_free_closed)
  have w1: "fd_get t1 w = None"
    unfolding w_def by (rule lowest_free_closed)
  then have rw: "r \<noteq> w"
    by (auto simp: t1_def fd_get_fd_set)
  with w1 have w: "fd_get (fdt st) w = None"
    by (simp add: t1_def fd_get_fd_set)
  have "pipes_made st [r, w] st'"
    unfolding pipes_made_def using r w rw
    by (auto simp: st'_def t1_def fd_get_fd_set end_of_def less_Suc_eq)
  with s show thesis
    by (rule that)
qed

lemma pipes_made_trans:
  assumes a: "pipes_made st fds st1" and b: "pipes_made st1 fds' st2"
  shows "pipes_made st (fds @ fds') st2"
proof -
  have disj: "set fds \<inter> set fds' = {}"
  proof (rule ccontr)
    assume "set fds \<inter> set fds' \<noteq> {}"
    then obtain fd where fd: "fd \<in> set fds" "fd \<in> set fds'"
      by blast
    from fd(1) obtain k where "k < length fds" "fds ! k = fd"
      by (auto simp: in_set_conv_nth)
    with a have "fd_get (fdt st1) fd \<noteq> None"
      by (auto simp: pipes_made_def)
    moreover from fd(2) b have "fd_get (fdt st1) fd = None"
      by (simp add: pipes_made_def)
    ultimately show False by simp
  qed
  have ends: "fd_get (fdt st2) ((fds @ fds') ! k) = Some (end_of (npipes st) k)"
    if k: "k < length (fds @ fds')" for k
  proof (cases "k < length fds")
    case True
    then have "fds ! k \<in> set fds" by simp
    with disj have "fds ! k \<notin> set fds'" by blast
    with b have "fd_get (fdt st2) (fds ! k) = fd_get (fdt st1) (fds ! k)"
      by (simp add: pipes_made_def)
    with a True show ?thesis
      by (simp add: pipes_made_def nth_append)
  next
    case False
    with k have k': "k - length fds < length fds'" by simp
    have ev: "even (length fds)" using a by (simp add: pipes_made_def)
    have n: "npipes st1 = npipes st + length fds div 2"
      using a by (simp add: pipes_made_def)
    define j where "j = k - length fds"
    from False have kj: "k = length fds + j"
      by (simp add: j_def)
    from ev obtain m where m: "length fds = 2 * m"
      by (auto elim!: evenE)
    have "even (2 * m + j) = even j" and "(2 * m + j) div 2 = m + j div 2"
      by simp_all
    then have "end_of (npipes st1) j = end_of (npipes st) k"
      unfolding kj n m end_of_def by (simp add: add.assoc)
    moreover from b k' have "fd_get (fdt st2) (fds' ! j) = Some (end_of (npipes st1) j)"
      by (simp add: pipes_made_def j_def)
    moreover have "(fds @ fds') ! k = fds' ! j"
      unfolding kj by simp
    ultimately show ?thesis
      by simp
  qed
  have closed: "fd_get (fdt st) fd = None" if "fd \<in> set (fds @ fds')" for fd
  proof (cases "fd \<in> set fds")
    case True
    with a show ?thesis by (simp add: pipes_made_def)
  next
    case False
    with that have "fd \<in> set fds'" by simp
    with b have "fd_get (fdt st1) fd = None" by (simp add: pipes_made_def)
    with a False show ?thesis by (simp add: pipes_made_def)
  qed
  have "distinct (fds @ fds')" "even (length (fds @ fds'))"
    using a b disj by (simp_all add: pipes_made_def)
  moreover have "npipes st2 = npipes st + length (fds @ fds') div 2"
  proof -
    from a b obtain m m' where "length fds = 2 * m" "length fds' = 2 * m'"
      by (auto simp: pipes_made_def elim!: evenE)
    moreover have "(2 * m + 2 * m') div 2 = m + m'"
      by simp
    ultimately show ?thesis
      using a b by (simp add: pipes_made_def)
  qed
  moreover have "\<forall>fd. fd \<notin> set (fds @ fds') \<longrightarrow> fd_get (fdt st2) fd = fd_get (fdt st) fd"
    using a b by (simp add: pipes_made_def)
  ultimately show ?thesis
    using ends closed unfolding pipes_made_def by blast
qed

lemma pipe_loop_ok:
  "\<forall>i \<in> set is. pipe_ok e i \<Longrightarrow>
   \<exists>st' new. pipe_loop e is st fds evs = (True, st', fds @ new, evs @ pipe_events new) \<and>
     length new = 2 * length is \<and> pipes_made st new st'"
proof (induction "is" arbitrary: st fds evs)
  case Nil
  then show ?case
    by (simp add: pipes_made_Nil)
next
  case (Cons i "is")
  obtain r w st1 where p: "sys_pipe True st = Some (r, w, st1)" and m: "pipes_made st [r, w] st1"
    by (rule sys_pipe_ok)
  from Cons.prems have "\<forall>i \<in> set is. pipe_ok e i"
    by simp
  from Cons.IH [OF this, of st1 "fds @ [r, w]" "evs @ [Pipe r w]"]
  obtain st' new where l: "pipe_loop e is st1 (fds @ [r, w]) (evs @ [Pipe r w]) =
      (True, st', (fds @ [r, w]) @ new, (evs @ [Pipe r w]) @ pipe_events new)"
    and n: "length new = 2 * length is" and m': "pipes_made st1 new st'"
    by blast
  have "pipe_loop e (i # is) st fds evs =
      (True, st', fds @ (r # w # new), evs @ pipe_events (r # w # new))"
    using Cons.prems p l by simp
  moreover have "pipes_made st (r # w # new) st'"
    using pipes_made_trans [OF m m'] by simp
  ultimately show ?case
    using n by (intro exI [of _ st'] exI [of _ "r # w # new"]) simp
qed

lemma pipe_loop_fail:
  "\<forall>i \<in> set pre. pipe_ok e i \<Longrightarrow> \<not> pipe_ok e k \<Longrightarrow>
   \<exists>st' new. pipe_loop e (pre @ k # post) st fds evs =
       (False, st', fds @ new, evs @ pipe_events new @ [PipeFailed, Perror ''Pipe failed'']) \<and>
     length new = 2 * length pre \<and> pipes_made st new st'"
proof (induction pre arbitrary: st fds evs)
  case Nil
  then show ?case
    by (simp add: pipes_made_Nil)
next
  case (Cons i pre)
  obtain r w st1 where p: "sys_pipe True st = Some (r, w, st1)" and m: "pipes_made st [r, w] st1"
    by (rule sys_pipe_ok)
  from Cons.prems have "\<forall>i \<in> set pre. pipe_ok e i" and "\<not> pipe_ok e k"
    by simp_all
  from Cons.IH [OF this, of st1 "fds @ [r, w]" "evs @ [Pipe r w]"]
  obtain st' new where l: "pipe_loop e (pre @ k # post) st1 (fds @ [r, w]) (evs @ [Pipe r w]) =
      (False, st', (fds @ [r, w]) @ new,
       (evs @ [Pipe r w]) @ pipe_events new @ [PipeFailed, Perror ''Pipe failed''])"
    and n: "length new = 2 * length pre" and m': "pipes_made st1 new st'"
    by blast
  have "pipe_loop e ((i # pre) @ k # post) st fds evs =
      (False, st', fds @ (r # w # new),
       evs @ pipe_events (r # w # new) @ [PipeFailed, Perror ''Pipe failed''])"
    using Cons.prems p l by simp
  moreover have "pipes_made st (r # w # new) st'"
    using pipes_made_trans [OF m m'] by simp
  ultimately show ?case
    using n by (intro exI [of _ st'] exI [of _ "r # w # new"]) simp
qed

lemma close_loop_open:
  "distinct fds \<Longrightarrow> \<forall>fd \<in> set fds. fd_get t fd \<noteq> None \<Longrightarrow>
   \<exists>t'. close_loop fds t evs = (t', evs @ closes fds) \<and>
     fd_get t' = (\<lambda>fd. if fd \<in> set fds then None else fd_get t fd)"
proof (induction fds arbitrary: t evs)
  case Nil
  then show ?case
    by (simp add: closes_def)
next
  case (Cons fd fds)
  let ?t1 = "fd_set t fd None"
  from Cons.prems have c: "sys_close t fd = (True, ?t1)"
    by (simp add: sys_close_open)
  from Cons.prems have "distinct fds" and "\<forall>x \<in> set fds. fd_get ?t1 x \<noteq> None"
    by (auto simp: fd_get_fd_set)
  from Cons.IH [OF this, of "evs @ [Close fd True]"]
  obtain t' where l: "close_loop fds ?t1 (evs @ [Close fd True]) = (t', (evs @ [Close fd True]) @ closes fds)"
    and g: "fd_get t' = (\<lambda>x. if x \<in> set fds then None else fd_get ?t1 x)"
    by blast
  have "close_loop (fd # fds) t evs = (t', evs @ closes (fd # fds))"
    using c l by (simp add: closes_def)
  moreover have "fd_get t' = (\<lambda>x. if x \<in> set (fd # fds) then None else fd_get t x)"
    unfolding g by (auto simp: fun_eq_iff fd_get_fd_set)
  ultimately show ?case
    by blast
qed

lemma fork_loop_ok:
  "\<forall>i \<in> set is. fork_res e i \<noteq> None \<Longrightarrow>
   fork_loop e commands pipefds t is evs cs =
     (True, evs @ forks e is, cs @ spawned e commands pipefds t is)"
  by (induction "is" arbitrary: evs cs) (auto simp: forks_def spawned_def)

lemma fork_loop_fail:
  "\<forall>i \<in> set pre. fork_res e i \<noteq> None \<Longrightarrow> fork_res e k = None \<Longrightarrow>
   fork_loop e commands pipefds t (pre @ k # post) evs cs =
     (False, evs @ forks e pre @ [ForkFailed, Perror ''Fork failed''],
      cs @ spawned e commands pipefds t pre)"
  by (induction pre arbitrary: evs cs) (auto simp: forks_def spawned_def)

section \<open>The argument vector\<close>

lemma length_cells_store [simp]: "length (cells (store args i v)) = length (cells args)"
  by (simp add: store_def)

lemma get_args_loop_fits:
  "k \<le> length parts \<Longrightarrow> k \<le> MAX_ARGS \<Longrightarrow>
   foldl (\<lambda>a i. store a i (Ptr (parts ! i))) fresh_args [0..<k] =
     \<lparr>cells = map Ptr (take k parts) @ replicate (MAX_ARGS - k) Uninit, beyond = []\<rparr>"
proof (induction k)
  case 0
  then show ?case
    by (simp add: fresh_args_def)
next
  case (Suc k)
  then have "MAX_ARGS - k = Suc (MAX_ARGS - Suc k)"
    by simp
  then have "replicate (MAX_ARGS - k) Uninit = Uninit # replicate (MAX_ARGS - Suc k) Uninit"
    by simp
  with Suc show ?case
    by (simp add: store_def take_Suc_conv_app_nth list_update_append)
qed

lemma get_args_fits:
  assumes "length parts < MAX_ARGS"
  shows "get_args parts fresh_args =
    \<lparr>cells = map Ptr parts @ Null # replicate (MAX_ARGS - length parts - 1) Uninit, beyond = []\<rparr>"
proof -
  from assms have "MAX_ARGS - length parts = Suc (MAX_ARGS - length parts - 1)"
    by simp
  then have "replicate (MAX_ARGS - length parts) Uninit =
      Uninit # replicate (MAX_ARGS - length parts - 1) Uninit"
    by simp
  moreover have "foldl (\<lambda>a i. store a i (Ptr (parts ! i))) fresh_args [0..<length parts] =
      \<lparr>cells = map Ptr parts @ replicate (MAX_ARGS - length parts) Uninit, beyond = []\<rparr>"
    using assms get_args_loop_fits [of "length parts" parts] by simp
  ultimately show ?thesis
    unfolding get_args_def using assms by (simp add: store_def list_update_append)
qed

lemma length_cells_loop:
  "length (cells (foldl (\<lambda>a i. store a i (Ptr (parts ! i))) args is)) = length (cells args)"
  by (induction "is" arbitrary: args) simp_all

lemma get_args_overflow:
  assumes "MAX_ARGS \<le> length parts"
  shows "(length parts, Null) \<in> set (beyond (get_args parts fresh_args))"
proof -
  have "length (cells (foldl (\<lambda>a i. store a i (Ptr (parts ! i))) fresh_args [0..<length parts]))
      = MAX_ARGS"
    by (simp add: length_cells_loop fresh_args_def)
  with assms show ?thesis
    by (simp add: get_args_def store_def)
qed

lemma argv_of_Ptrs: "argv_of (map Ptr parts @ Null # cs) = Some (map c_string parts)"
  by (induction parts) simp_all

text \<open>What the child does once its descriptors are set up, by the number of tokens.\<close>

lemma exec_child_fits:
  assumes "tokens \<noteq> []" "length tokens < MAX_ARGS"
  shows "exec_child ok tokens t =
    (if ok
     then ([Execvp (c_string (hd tokens)) (map c_string tokens)], t,
           Replaced (c_string (hd tokens)) (map c_string tokens))
     else ([Execvp (c_string (hd tokens)) (map c_string tokens), Perror ''Execvp failed'',
            Exit EXIT_FAILURE], [],
           ChildExit EXIT_FAILURE))"
proof -
  from assms(1) obtain x xs where "tokens = x # xs"
    by (cases tokens) auto
  then have "(map Ptr tokens @ Null # replicate (MAX_ARGS - length tokens - 1) Uninit) ! 0
      = Ptr (hd tokens)"
    by simp
  then show ?thesis
    using assms by (simp add: exec_child_def get_args_fits argv_of_Ptrs)
qed

lemma exec_child_empty: "exec_child ok [] t = ([], t, ChildUndefined)"
  by (simp add: exec_child_def get_args_fits [of "[]"] MAX_ARGS_def)

lemma exec_child_overflow:
  "MAX_ARGS \<le> length tokens \<Longrightarrow> exec_child ok tokens t = ([], t, ChildUndefined)"
  using get_args_overflow [of tokens] by (auto simp: exec_child_def Let_def)

lemma exec_child_cases:
  obtains "exec_child ok tokens t = ([], t, ChildUndefined)"
  | "exec_child ok tokens t =
      ([Execvp (c_string (hd tokens)) (map c_string tokens)], t,
       Replaced (c_string (hd tokens)) (map c_string tokens))"
  | "exec_child ok tokens t =
      ([Execvp (c_string (hd tokens)) (map c_string tokens), Perror ''Execvp failed'',
        Exit EXIT_FAILURE], [],
       ChildExit EXIT_FAILURE)"
proof (cases "tokens = [] \<or> MAX_ARGS \<le> length tokens")
  case True
  then have "exec_child ok tokens t = ([], t, ChildUndefined)"
    using exec_child_empty exec_child_overflow by auto
  then show thesis by (rule that(1))
next
  case False
  then have "tokens \<noteq> []" "length tokens < MAX_ARGS"
    by simp_all
  from exec_child_fits [OF this, of ok t] show thesis
    by (cases ok) (auto intro: that)
qed

section \<open>The child of a pipeline stage\<close>

lemma child_dup2_skip: "child_dup2 e i False pipefds k newfd t evs = (Some t, evs)"
  by (simp add: child_dup2_def)

lemma child_dup2_fail:
  "fd_get t (pipefds ! k) \<noteq> None \<Longrightarrow> \<not> dup2_ok e i newfd \<Longrightarrow>
   child_dup2 e i True pipefds k newfd t evs = (None, evs @ [Dup2 (pipefds ! k) newfd False])"
  by (simp add: child_dup2_def sys_dup2_def)

lemma child_dup2_ok:
  assumes "fd_get t (pipefds ! k) \<noteq> None" "dup2_ok e i newfd"
  obtains t' where
    "child_dup2 e i True pipefds k newfd t evs = (Some t', evs @ [Dup2 (pipefds ! k) newfd True])"
    "fd_get t' = (fd_get t)(newfd := fd_get t (pipefds ! k))"
proof -
  from assms obtain t' where s: "sys_dup2 (dup2_ok e i newfd) t (pipefds ! k) newfd = Some t'"
    by (cases "sys_dup2 (dup2_ok e i newfd) t (pipefds ! k) newfd") (auto simp: sys_dup2_None)
  then have "fd_get t' = (fd_get t)(newfd := fd_get t (pipefds ! k))"
    by (simp add: sys_dup2_Some)
  moreover from s have
    "child_dup2 e i True pipefds k newfd t evs = (Some t', evs @ [Dup2 (pipefds ! k) newfd True])"
    by (simp add: child_dup2_def)
  ultimately show thesis
    using that by blast
qed

lemma pipes_made_open:
  "pipes_made st fds st1 \<Longrightarrow> k < length fds \<Longrightarrow> fd_get (fdt st1) (fds ! k) \<noteq> None"
  by (simp add: pipes_made_def)

lemma pipeline_child_cases:
  assumes pm: "pipes_made st fds st1"
    and len: "length fds = 2 * (length commands - 1)"
    and i: "i < length commands"
  obtains
    (stdin_failed) "0 < i" "\<not> dup2_ok e i STDIN_FILENO"
      "pipeline_child e commands fds i pid (fdt st1) =
         child_exits i pid (dup_in i fds False @ [Perror ''dup2 stdin failed''])"
  | (stdout_failed) "i < length commands - 1" "\<not> dup2_ok e i STDOUT_FILENO"
      "i = 0 \<or> dup2_ok e i STDIN_FILENO"
      "pipeline_child e commands fds i pid (fdt st1) =
         child_exits i pid (dup_in i fds True @ dup_out (length commands) i fds False @
           [Perror ''dup2 stdout failed''])"
  | (redirected) t3 where "i = 0 \<or> dup2_ok e i STDIN_FILENO"
      "length commands - 1 \<le> i \<or> dup2_ok e i STDOUT_FILENO"
      "fd_get t3 = (\<lambda>fd. if fd \<in> set fds then None
                          else redirected (length commands) i fds (fd_get (fdt st1)) fd)"
      "pipeline_child e commands fds i pid (fdt st1) =
         (case exec_child (exec_ok e i) (split (commands ! i) CHR '' '') t3 of
            (ev4, t4, ce) \<Rightarrow>
              \<lparr>stage = i, cpid = pid,
               cevents = dup_in i fds True @ dup_out (length commands) i fds True @ closes fds @ ev4,
               cfdt = t4, cend = ce\<rparr>)"
proof -
  let ?N = "length commands"
  let ?t = "fdt st1"
  let ?r = "(i - 1) * 2" and ?w = "i * 2 + 1"
  have fds: "map ((!) fds) [0..<2 * (?N - 1)] = fds"
    using len map_nth [of fds] by simp
  have r: "fd_get ?t (fds ! ?r) \<noteq> None" if "0 < i"
    using that i len by (intro pipes_made_open [OF pm]) simp
  have w: "?w < length fds" if "i < ?N - 1"
    using that len by simp
  show thesis
  proof (cases "0 < i \<and> \<not> dup2_ok e i STDIN_FILENO")
    case True
    then have "child_dup2 e i (0 < i) fds ?r STDIN_FILENO ?t [] =
        (None, [Dup2 (fds ! ?r) STDIN_FILENO False])"
      using child_dup2_fail [of ?t fds ?r e i STDIN_FILENO "[]"] r by simp
    then have "pipeline_child e commands fds i pid ?t =
        child_exits i pid (dup_in i fds False @ [Perror ''dup2 stdin failed''])"
      using True by (simp add: pipeline_child_def dup_in_def)
    with True show thesis
      by (intro stdin_failed) simp_all
  next
    case False
    then have in_ok: "i = 0 \<or> dup2_ok e i STDIN_FILENO"
      by auto
    obtain t1 where t1: "child_dup2 e i (0 < i) fds ?r STDIN_FILENO ?t [] = (Some t1, dup_in i fds True)"
      and g1: "fd_get t1 = (if 0 < i then (fd_get ?t)(STDIN_FILENO := fd_get ?t (fds ! ?r)) else fd_get ?t)"
    proof (cases "0 < i")
      case True
      with in_ok r obtain t' where
        "child_dup2 e i True fds ?r STDIN_FILENO ?t [] = (Some t', [] @ [Dup2 (fds ! ?r) STDIN_FILENO True])"
        "fd_get t' = (fd_get ?t)(STDIN_FILENO := fd_get ?t (fds ! ?r))"
        using child_dup2_ok [of ?t fds ?r e i STDIN_FILENO "[]"] by auto
      with True show thesis
        by (intro that [of t']) (simp_all add: dup_in_def)
    next
      case False
      then show thesis
        by (intro that [of ?t]) (simp_all add: child_dup2_skip dup_in_def)
    qed
    have open1: "fd_get t1 fd \<noteq> None" if "fd \<in> set fds" for fd
    proof -
      from that obtain k where "k < length fds" "fds ! k = fd"
        by (auto simp: in_set_conv_nth)
      with pm have "fd_get ?t fd \<noteq> None"
        using pipes_made_open by blast
      with r show ?thesis
        by (auto simp: g1)
    qed
    show thesis
    proof (cases "i < ?N - 1 \<and> \<not> dup2_ok e i STDOUT_FILENO")
      case True
      with w have "fd_get t1 (fds ! ?w) \<noteq> None"
        by (intro open1) simp
      with True have "child_dup2 e i (i < ?N - 1) fds ?w STDOUT_FILENO t1 (dup_in i fds True) =
          (None, dup_in i fds True @ [Dup2 (fds ! ?w) STDOUT_FILENO False])"
        using child_dup2_fail [of t1 fds ?w e i STDOUT_FILENO] by simp
      with t1 True have "pipeline_child e commands fds i pid ?t =
          child_exits i pid (dup_in i fds True @ dup_out ?N i fds False @
            [Perror ''dup2 stdout failed''])"
        by (simp add: pipeline_child_def dup_out_def)
      with True in_ok show thesis
        by (intro stdout_failed) simp_all
    next
      case False
      then have out_ok: "?N - 1 \<le> i \<or> dup2_ok e i STDOUT_FILENO"
        by auto
      obtain t2 where t2: "child_dup2 e i (i < ?N - 1) fds ?w STDOUT_FILENO t1 (dup_in i fds True) =
            (Some t2, dup_in i fds True @ dup_out ?N i fds True)"
        and g2: "fd_get t2 = redirected ?N i fds (fd_get ?t)"
      proof (cases "i < ?N - 1")
        case True
        with w have "fd_get t1 (fds ! ?w) \<noteq> None"
          by (intro open1) simp
        with True out_ok obtain t' where
          "child_dup2 e i True fds ?w STDOUT_FILENO t1 (dup_in i fds True) =
             (Some t', dup_in i fds True @ [Dup2 (fds ! ?w) STDOUT_FILENO True])"
          "fd_get t' = (fd_get t1)(STDOUT_FILENO := fd_get t1 (fds ! ?w))"
          using child_dup2_ok [of t1 fds ?w e i STDOUT_FILENO "dup_in i fds True"] by auto
        with True show thesis
          by (intro that [of t']) (simp_all add: dup_out_def redirected_def Let_def g1)
      next
        case False
        then show thesis
          by (intro that [of t1]) (simp_all add: child_dup2_skip dup_out_def redirected_def Let_def g1)
      qed
      have open2: "\<forall>fd \<in> set fds. fd_get t2 fd \<noteq> None"
      proof
        fix fd
        assume "fd \<in> set fds"
        then have o: "fd_get t1 fd \<noteq> None"
          by (rule open1)
        have "i < ?N - 1 \<Longrightarrow> fd_get t1 (fds ! ?w) \<noteq> None"
          using w by (intro open1) simp
        moreover have "fd_get t2 = (if i < ?N - 1
            then (fd_get t1)(STDOUT_FILENO := fd_get t1 (fds ! ?w)) else fd_get t1)"
          by (simp add: g2 redirected_def Let_def g1)
        ultimately show "fd_get t2 fd \<noteq> None"
          using o by auto
      qed
      from pm have "distinct fds"
        by (simp add: pipes_made_def)
      with open2 obtain t3 where
        c: "close_loop fds t2 (dup_in i fds True @ dup_out ?N i fds True) =
          (t3, (dup_in i fds True @ dup_out ?N i fds True) @ closes fds)"
        and g3: "fd_get t3 = (\<lambda>fd. if fd \<in> set fds then None else fd_get t2 fd)"
        using close_loop_open by blast
      have "pipeline_child e commands fds i pid ?t =
         (case exec_child (exec_ok e i) (split (commands ! i) CHR '' '') t3 of
            (ev4, t4, ce) \<Rightarrow>
              \<lparr>stage = i, cpid = pid,
               cevents = dup_in i fds True @ dup_out ?N i fds True @ closes fds @ ev4,
               cfdt = t4, cend = ce\<rparr>)"
        using t1 t2 c fds by (simp add: pipeline_child_def Let_def split: prod.splits)
      moreover have "fd_get t3 = (\<lambda>fd. if fd \<in> set fds then None
          else redirected ?N i fds (fd_get ?t) fd)"
        unfolding g3 g2 by (rule refl)
      ultimately show thesis
        using in_ok out_ok by (intro redirected [of t3])
    qed
  qed
qed

section \<open>The three ways through the pipeline executor\<close>

lemma upt_split_at: "k < n \<Longrightarrow> [0..<n] = [0..<k] @ k # [Suc k..<n]"
  by (metis le_add1 le_add_same_cancel1 less_imp_add_positive upt_add_eq_append upt_conv_Cons)

lemma first_failure:
  assumes "\<not> (\<forall>i < n. P i)"
  obtains k :: nat where "k < n" "\<forall>i < k. P i" "\<not> P k"
proof -
  define k where "k = (LEAST i. \<not> P i)"
  from assms obtain j where j: "j < n" "\<not> P j"
    by blast
  from j(2) have "\<not> P k"
    unfolding k_def by (rule LeastI [of "\<lambda>i. \<not> P i"])
  moreover from j(2) have "k \<le> j"
    unfolding k_def by (rule Least_le [of "\<lambda>i. \<not> P i"])
  moreover have "\<forall>i < k. P i"
    unfolding k_def using not_less_Least by blast
  ultimately show thesis
    using j that [of k] by simp
qed

lemma execute_pipeline_completes:
  assumes ne: "commands \<noteq> []"
    and pipes: "\<forall>i < length commands - 1. pipe_ok e i"
    and forked: "\<forall>i < length commands. fork_res e i \<noteq> None"
  obtains st1 fds t3 where
    "pipes_made st fds st1" "length fds = 2 * (length commands - 1)"
    "fd_get t3 = (\<lambda>fd. if fd \<in> set fds then None else fd_get (fdt st1) fd)"
    "execute_pipeline e commands st =
       \<lparr>outcome = Returned,
        events = pipe_events fds @ forks e [0..<length commands] @ closes fds @
          replicate (length commands) Wait,
        state = st1\<lparr>fdt := t3\<rparr>,
        children = spawned e commands fds (fdt st1) [0..<length commands]\<rparr>"
proof -
  let ?N = "length commands"
  from pipes obtain st1 fds where
    p: "pipe_loop e [0..<?N - 1] st [] [] = (True, st1, [] @ fds, [] @ pipe_events fds)"
    and len: "length fds = 2 * length [0..<?N - 1]" and pm: "pipes_made st fds st1"
    using pipe_loop_ok [of "[0..<?N - 1]" e st "[]" "[]"] by auto
  from forked have f: "fork_loop e commands fds (fdt st1) [0..<?N] (pipe_events fds) [] =
      (True, pipe_events fds @ forks e [0..<?N], [] @ spawned e commands fds (fdt st1) [0..<?N])"
    by (intro fork_loop_ok) simp
  have fds: "map ((!) fds) [0..<2 * (?N - 1)] = fds"
    using len map_nth [of fds] by simp
  from pm have "distinct fds" and "\<forall>fd \<in> set fds. fd_get (fdt st1) fd \<noteq> None"
    by (auto simp: pipes_made_def in_set_conv_nth)
  then obtain t3 where
    c: "close_loop fds (fdt st1) (pipe_events fds @ forks e [0..<?N]) =
      (t3, (pipe_events fds @ forks e [0..<?N]) @ closes fds)"
    and g: "fd_get t3 = (\<lambda>fd. if fd \<in> set fds then None else fd_get (fdt st1) fd)"
    using close_loop_open by blast
  have "execute_pipeline e commands st =
       \<lparr>outcome = Returned,
        events = pipe_events fds @ forks e [0..<?N] @ closes fds @ replicate ?N Wait,
        state = st1\<lparr>fdt := t3\<rparr>,
        children = spawned e commands fds (fdt st1) [0..<?N]\<rparr>"
    using ne p f c fds by (simp add: execute_pipeline_def Let_def)
  with pm len g show thesis
    by (intro that [of fds st1 t3]) simp_all
qed

lemma execute_pipeline_fork_fails:
  assumes pipes: "\<forall>i < length commands - 1. pipe_ok e i"
    and k: "k < length commands" "\<forall>i < k. fork_res e i \<noteq> None" "fork_res e k = None"
  obtains st1 fds where
    "pipes_made st fds st1" "length fds = 2 * (length commands - 1)"
    "execute_pipeline e commands st =
       \<lparr>outcome = Returned,
        events = pipe_events fds @ forks e [0..<k] @ [ForkFailed, Perror ''Fork failed''],
        state = st1,
        children = spawned e commands fds (fdt st1) [0..<k]\<rparr>"
proof -
  let ?N = "length commands"
  from pipes obtain st1 fds where
    p: "pipe_loop e [0..<?N - 1] st [] [] = (True, st1, [] @ fds, [] @ pipe_events fds)"
    and len: "length fds = 2 * length [0..<?N - 1]" and pm: "pipes_made st fds st1"
    using pipe_loop_ok [of "[0..<?N - 1]" e st "[]" "[]"] by auto
  from k have "fork_loop e commands fds (fdt st1) ([0..<k] @ k # [Suc k..<?N]) (pipe_events fds) [] =
      (False, pipe_events fds @ forks e [0..<k] @ [ForkFailed, Perror ''Fork failed''],
       [] @ spawned e commands fds (fdt st1) [0..<k])"
    by (intro fork_loop_fail) simp_all
  then have f: "fork_loop e commands fds (fdt st1) [0..<?N] (pipe_events fds) [] =
      (False, pipe_events fds @ forks e [0..<k] @ [ForkFailed, Perror ''Fork failed''],
       spawned e commands fds (fdt st1) [0..<k])"
    using upt_split_at [OF k(1)] by simp
  have "execute_pipeline e commands st =
       \<lparr>outcome = Returned,
        events = pipe_events fds @ forks e [0..<k] @ [ForkFailed, Perror ''Fork failed''],
        state = st1,
        children = spawned e commands fds (fdt st1) [0..<k]\<rparr>"
    using k(1) p f by (cases commands) (simp_all add: execute_pipeline_def Let_def)
  with pm len show thesis
    by (intro that [of fds st1]) simp_all
qed

lemma execute_pipeline_pipe_fails:
  assumes k: "k < length commands - 1" "\<forall>i < k. pipe_ok e i" "\<not> pipe_ok e k"
  obtains st1 fds where
    "pipes_made st fds st1" "length fds = 2 * k"
    "execute_pipeline e commands st =
       \<lparr>outcome = Returned,
        events = pipe_events fds @ [PipeFailed, Perror ''Pipe failed''],
        state = st1, children = []\<rparr>"
proof -
  let ?N = "length commands"
  from k obtain st1 fds where
    p: "pipe_loop e ([0..<k] @ k # [Suc k..<?N - 1]) st [] [] =
      (False, st1, [] @ fds, [] @ pipe_events fds @ [PipeFailed, Perror ''Pipe failed''])"
    and len: "length fds = 2 * length [0..<k]" and pm: "pipes_made st fds st1"
    using pipe_loop_fail [of "[0..<k]" e k "[Suc k..<?N - 1]" st "[]" "[]"] by auto
  from p have "pipe_loop e [0..<?N - 1] st [] [] =
      (False, st1, fds, pipe_events fds @ [PipeFailed, Perror ''Pipe failed''])"
    using upt_split_at [OF k(1)] by simp
  then have "execute_pipeline e commands st =
       \<lparr>outcome = Returned,
        events = pipe_events fds @ [PipeFailed, Perror ''Pipe failed''],
        state = st1, children = []\<rparr>"
    using k(1) by (cases commands) (simp_all add: execute_pipeline_def Let_def)
  with pm len show thesis
    by (intro that [of fds st1]) simp_all
qed

text \<open>Every run of the pipeline executor on at least one command is one of the three.\<close>

lemma execute_pipeline_cases:
  assumes ne: "commands \<noteq> []"
  obtains
    (pipe_failed) k st1 fds where
      "k < length commands - 1" "\<forall>i < k. pipe_ok e i" "\<not> pipe_ok e k"
      "pipes_made st fds st1" "length fds = 2 * k"
      "execute_pipeline e commands st =
         \<lparr>outcome = Returned,
          events = pipe_events fds @ [PipeFailed, Perror ''Pipe failed''],
          state = st1, children = []\<rparr>"
  | (fork_failed) k st1 fds where
      "\<forall>i < length commands - 1. pipe_ok e i"
      "k < length commands" "\<forall>i < k. fork_res e i \<noteq> None" "fork_res e k = None"
      "pipes_made st fds st1" "length fds = 2 * (length commands - 1)"
      "execute_pipeline e commands st =
         \<lparr>outcome = Returned,
          events = pipe_events fds @ forks e [0..<k] @ [ForkFailed, Perror ''Fork failed''],
          state = st1,
          children = spawned e commands fds (fdt st1) [0..<k]\<rparr>"
  | (completed) st1 fds t3 where
      "\<forall>i < length commands - 1. pipe_ok e i" "\<forall>i < length commands. fork_res e i \<noteq> None"
      "pipes_made st fds st1" "length fds = 2 * (length commands - 1)"
      "fd_get t3 = (\<lambda>fd. if fd \<in> set fds then None else fd_get (fdt st1) fd)"
      "execute_pipeline e commands st =
         \<lparr>outcome = Returned,
          events = pipe_events fds @ forks e [0..<length commands] @ closes fds @
            replicate (length commands) Wait,
          state = st1\<lparr>fdt := t3\<rparr>,
          children = spawned e commands fds (fdt st1) [0..<length commands]\<rparr>"
proof (cases "\<forall>i < length commands - 1. pipe_ok e i")
  case False
  then obtain k where k: "k < length commands - 1" "\<forall>i < k. pipe_ok e i" "\<not> pipe_ok e k"
    by (rule first_failure)
  then show thesis
    using execute_pipeline_pipe_fails [OF k, of st] pipe_failed by blast
next
  case pipes: True
  show thesis
  proof (cases "\<forall>i < length commands. fork_res e i \<noteq> None")
    case True
    with ne pipes show thesis
      using execute_pipeline_completes [of commands e st] completed by blast
  next
    case False
    then obtain k where k: "k < length commands" "\<forall>i < k. fork_res e i \<noteq> None"
        "\<not> fork_res e k \<noteq> None"
      by (rule first_failure)
    then have "fork_res e k = None"
      by simp
    with pipes k show thesis
      using execute_pipeline_fork_fails [of commands e k st] fork_failed by blast
  qed
qed

section \<open>Kinds of events in the parts of a trace\<close>

lemma pipe_events_kind:
  "ev \<in> set (pipe_events fds) \<Longrightarrow> \<exists>r w. ev = Pipe r w"
  by (induction fds rule: pipe_events.induct) auto

lemma forks_kind: "ev \<in> set (forks e is) \<Longrightarrow> \<exists>pid. ev = Fork pid"
  by (auto simp: forks_def)

lemma closes_kind: "ev \<in> set (closes fds) \<Longrightarrow> \<exists>fd. ev = Close fd True"
  by (auto simp: closes_def)

lemma forks_not_pipe: "\<forall>ev \<in> set (forks e is). \<not> is_pipe ev"
  by (auto simp: forks_def is_pipe_def)

lemma closes_not_pipe: "\<forall>ev \<in> set (closes fds). \<not> is_pipe ev"
  by (auto simp: closes_def is_pipe_def)

lemma pipe_fds_of_pipe_events:
  "even (length fds) \<Longrightarrow> pipe_fds_of (pipe_events fds @ evs) = fds @ pipe_fds_of evs"
  by (induction fds rule: pipe_events.induct) auto

lemma pipe_fds_of_none:
  "\<forall>ev \<in> set evs. \<not> is_pipe ev \<Longrightarrow> pipe_fds_of evs = []"
  by (induction evs rule: pipe_fds_of.induct) (auto simp: is_pipe_def)

lemma pipe_fds_of_append_none:
  "\<forall>ev \<in> set evs'. \<forall>r w. ev \<noteq> Pipe r w \<Longrightarrow> pipe_fds_of (evs @ evs') = pipe_fds_of evs"
proof (induction evs rule: pipe_fds_of.induct)
  case 1
  then show ?case
    by (induction evs' rule: pipe_fds_of.induct) auto
qed auto

lemma length_pipe_events: "even (length fds) \<Longrightarrow> length (pipe_events fds) = length fds div 2"
  by (induction fds rule: pipe_events.induct) auto

lemma length_forks [simp]: "length (forks e is) = length is"
  by (simp add: forks_def)

lemma length_spawned [simp]: "length (spawned e commands fds t is) = length is"
  by (simp add: spawned_def)

lemma takeWhile_prefix:
  "\<forall>x \<in> set xs. P x \<Longrightarrow> ys \<noteq> [] \<Longrightarrow> \<not> P (hd ys) \<Longrightarrow>
   takeWhile P (xs @ ys) = xs \<and> dropWhile P (xs @ ys) = ys"
  by (cases ys) (simp_all add: takeWhile_append2 dropWhile_append2)

text \<open>
  Claim C3. With \<open>N \<ge> 1\<close> commands, the calls of \<open>execute_pipeline\<close> that come before
  its first \<^verbatim>\<open>fork\<close> call are exactly \<open>N - 1\<close> successful \<^verbatim>\<open>pipe\<close> calls, and no
  \<^verbatim>\<open>pipe\<close> call comes later; when every \<^verbatim>\<open>pipe\<close> call succeeds, a \<^verbatim>\<open>fork\<close> call
  follows. When a \<^verbatim>\<open>pipe\<close> call fails, the function reports \<^verbatim>\<open>Pipe failed\<close> and
  returns with no \<^verbatim>\<open>fork\<close> call made and no child spawned.
\<close>

theorem channels_before_forks:
  assumes "commands \<noteq> []"
  shows
    "((\<exists>ev \<in> set (events (execute_pipeline e commands st)). is_fork ev) \<longrightarrow>
        (\<exists>fds. takeWhile (\<lambda>ev. \<not> is_fork ev) (events (execute_pipeline e commands st))
                 = pipe_events fds \<and>
               length fds = 2 * (length commands - 1) \<and>
               length (pipe_events fds) = length commands - 1) \<and>
        (\<forall>ev \<in> set (dropWhile (\<lambda>ev. \<not> is_fork ev) (events (execute_pipeline e commands st))).
           \<not> is_pipe ev)) \<and>
     ((\<forall>i < length commands - 1. pipe_ok e i) \<longrightarrow>
        (\<exists>ev \<in> set (events (execute_pipeline e commands st)). is_fork ev)) \<and>
     ((\<exists>i < length commands - 1. \<not> pipe_ok e i) \<longrightarrow>
        outcome (execute_pipeline e commands st) = Returned \<and>
        children (execute_pipeline e commands st) = [] \<and>
        (\<forall>ev \<in> set (events (execute_pipeline e commands st)). \<not> is_fork ev) \<and>
        (\<exists>fds. length fds < 2 * (length commands - 1) \<and>
           events (execute_pipeline e commands st) =
             pipe_events fds @ [PipeFailed, Perror ''Pipe failed'']))"
proof -
  let ?R = "execute_pipeline e commands st"
  let ?N = "length commands"
  have nofork: "\<forall>ev \<in> set (pipe_events fds). \<not> is_fork ev" for fds
    using pipe_events_kind by (fastforce simp: is_fork_def)
  have after: "(\<exists>fds'. takeWhile (\<lambda>ev. \<not> is_fork ev) (pipe_events fds @ rest) = pipe_events fds' \<and>
        length fds' = 2 * (?N - 1) \<and> length (pipe_events fds') = ?N - 1) \<and>
      (\<forall>ev \<in> set (dropWhile (\<lambda>ev. \<not> is_fork ev) (pipe_events fds @ rest)). \<not> is_pipe ev) \<and>
      (\<exists>ev \<in> set (pipe_events fds @ rest). is_fork ev)"
    if "length fds = 2 * (?N - 1)" "rest \<noteq> []" "is_fork (hd rest)" "\<forall>ev \<in> set rest. \<not> is_pipe ev"
    for fds rest
  proof -
    from that(2,3) have "takeWhile (\<lambda>ev. \<not> is_fork ev) (pipe_events fds @ rest) = pipe_events fds"
      and "dropWhile (\<lambda>ev. \<not> is_fork ev) (pipe_events fds @ rest) = rest"
      using takeWhile_prefix [of "pipe_events fds" "\<lambda>ev. \<not> is_fork ev" rest] nofork by simp_all
    moreover from that(1) have "length (pipe_events fds) = ?N - 1"
      by (simp add: length_pipe_events)
    moreover from that(2,3) have "\<exists>ev \<in> set rest. is_fork ev"
      by (cases rest) auto
    ultimately show ?thesis
      using that(1,4) by auto
  qed
  from assms show ?thesis
  proof (cases rule: execute_pipeline_cases [where commands = commands and e = e and st = st])
    case (pipe_failed k st1 fds)
    have ev: "events ?R = pipe_events fds @ [PipeFailed, Perror ''Pipe failed'']"
      and out: "outcome ?R = Returned" and ch: "children ?R = []"
      by (simp_all add: pipe_failed(6))
    have a: "\<forall>ev \<in> set (events ?R). \<not> is_fork ev"
      using nofork [of fds] by (simp add: ev is_fork_def)
    have b: "\<exists>fds. length fds < 2 * (?N - 1) \<and>
        events ?R = pipe_events fds @ [PipeFailed, Perror ''Pipe failed'']"
      using pipe_failed(1,5) by (intro exI [of _ fds]) (simp add: ev)
    have c: "\<not> (\<forall>i < ?N - 1. pipe_ok e i)"
      using pipe_failed(1,3) by blast
    from a b c out ch show ?thesis
      by blast
  next
    case (fork_failed k st1 fds)
    let ?rest = "forks e [0..<k] @ [ForkFailed, Perror ''Fork failed'']"
    have ev: "events ?R = pipe_events fds @ ?rest"
      by (simp add: fork_failed(7))
    have "?rest \<noteq> []" and "is_fork (hd ?rest)"
      by (cases k) (simp_all add: is_fork_def forks_def hd_append upt_conv_Cons)
    moreover have "\<forall>ev \<in> set ?rest. \<not> is_pipe ev"
      using forks_not_pipe [of e "[0..<k]"] by (auto simp: is_pipe_def)
    ultimately have a: "(\<exists>fds'. takeWhile (\<lambda>ev. \<not> is_fork ev) (events ?R) = pipe_events fds' \<and>
        length fds' = 2 * (?N - 1) \<and> length (pipe_events fds') = ?N - 1) \<and>
      (\<forall>ev \<in> set (dropWhile (\<lambda>ev. \<not> is_fork ev) (events ?R)). \<not> is_pipe ev) \<and>
      (\<exists>ev \<in> set (events ?R). is_fork ev)"
      unfolding ev by (intro after [OF fork_failed(6)])
    with fork_failed(1) show ?thesis
      by blast
  next
    case (completed st1 fds t3)
    let ?rest = "forks e [0..<?N] @ closes fds @ replicate ?N Wait"
    have ev: "events ?R = pipe_events fds @ ?rest"
      by (simp add: completed(6))
    from assms have "[0..<?N] = 0 # [1..<?N]"
      by (simp add: upt_conv_Cons)
    then have "?rest \<noteq> []" and "is_fork (hd ?rest)"
      by (simp_all add: forks_def is_fork_def)
    moreover have "\<forall>ev \<in> set ?rest. \<not> is_pipe ev"
      using forks_not_pipe [of e "[0..<?N]"] closes_not_pipe [of fds]
      by (auto simp: is_pipe_def)
    ultimately have a: "(\<exists>fds'. takeWhile (\<lambda>ev. \<not> is_fork ev) (events ?R) = pipe_events fds' \<and>
        length fds' = 2 * (?N - 1) \<and> length (pipe_events fds') = ?N - 1) \<and>
      (\<forall>ev \<in> set (dropWhile (\<lambda>ev. \<not> is_fork ev) (events ?R)). \<not> is_pipe ev) \<and>
      (\<exists>ev \<in> set (events ?R). is_fork ev)"
      unfolding ev by (intro after [OF completed(4)])
    with completed(1) show ?thesis
      by blast
  qed
qed

theorem channels_before_forks_witness:
  "[''ls'', ''wc''] \<noteq> [] \<and>
   (\<exists>ev \<in> set (events (execute_pipeline env_ok [''ls'', ''wc''] st0)). is_fork ev) \<and>
   (\<exists>fds. takeWhile (\<lambda>ev. \<not> is_fork ev) (events (execute_pipeline env_ok [''ls'', ''wc''] st0))
             = pipe_events fds \<and>
           length fds = 2 * (length [''ls'', ''wc''] - 1) \<and>
           length (pipe_events fds) = length [''ls'', ''wc''] - 1) \<and>
   takeWhile (\<lambda>ev. \<not> is_fork ev) (events (execute_pipeline env_ok [''ls'', ''wc''] st0))
     = [Pipe 3 4]"
proof -
  have a: "[''ls'', ''wc''] \<noteq> []"
    by simp
  have b: "\<forall>i < length [''ls'', ''wc''] - 1. pipe_ok env_ok i"
    by simp
  have "takeWhile (\<lambda>ev. \<not> is_fork ev) (events (execute_pipeline env_ok [''ls'', ''wc''] st0))
     = [Pipe 3 4]"
    by (simp add: run_ls_wc is_fork_def)
  with channels_before_forks [OF a, of env_ok st0] a b show ?thesis
    by blast
qed

lemma pipe_fds_of_forks [simp]: "pipe_fds_of (forks e is @ evs) = pipe_fds_of evs"
  by (induction "is") (simp_all add: forks_def)

lemma pipe_fds_of_closes [simp]: "pipe_fds_of (closes fds @ evs) = pipe_fds_of evs"
  by (induction fds) (simp_all add: closes_def)

lemma pipe_fds_of_waits [simp]: "pipe_fds_of (replicate n Wait) = []"
  by (induction n) simp_all

lemma pipe_fds_of_trace:
  assumes "even (length fds)" "pipe_fds_of rest = []"
  shows "pipe_fds_of (pipe_events fds @ rest) = fds"
  using assms by (simp add: pipe_fds_of_pipe_events)

lemma Wait_not_pipe_events: "Wait \<notin> set (pipe_events fds)"
  using pipe_events_kind by blast

lemma Wait_not_forks: "Wait \<notin> set (forks e is)"
  by (auto simp: forks_def)

text \<open>The reaping loop is reached exactly when every pipe and fork call succeeded.\<close>

lemma reaping_iff:
  assumes "commands \<noteq> []"
  shows "Wait \<in> set (events (execute_pipeline e commands st)) \<longleftrightarrow>
    (\<forall>i < length commands - 1. pipe_ok e i) \<and> (\<forall>i < length commands. fork_res e i \<noteq> None)"
  using assms
proof (cases rule: execute_pipeline_cases [where commands = commands and e = e and st = st])
  case (pipe_failed k st1 fds)
  then show ?thesis
    using Wait_not_pipe_events [of fds] by auto
next
  case (fork_failed k st1 fds)
  then show ?thesis
    using Wait_not_pipe_events [of fds] Wait_not_forks [of e "[0..<k]"] by auto
next
  case (completed st1 fds t3)
  with assms show ?thesis
    by auto
qed

section \<open>Events and tables of the children\<close>

lemma child_exits_simps [simp]:
  "stage (child_exits i pid evs) = i" "cpid (child_exits i pid evs) = pid"
  "cevents (child_exits i pid evs) = evs @ [Exit EXIT_FAILURE]"
  "cfdt (child_exits i pid evs) = []" "cend (child_exits i pid evs) = ChildExit EXIT_FAILURE"
  by (simp_all add: child_exits_def)

lemma dup_in_kind: "ev \<in> set (dup_in i fds ok) \<Longrightarrow> is_dup2 ev"
  by (auto simp: dup_in_def is_dup2_def split: if_splits)

lemma dup_out_kind: "ev \<in> set (dup_out n i fds ok) \<Longrightarrow> is_dup2 ev"
  by (auto simp: dup_out_def is_dup2_def split: if_splits)

lemma closes_is_close: "ev \<in> set (closes fds) \<Longrightarrow> is_close ev \<and> \<not> is_dup2 ev \<and> \<not> is_execvp ev"
  by (auto simp: closes_def is_close_def is_dup2_def is_execvp_def)

lemma exec_child_events:
  "exec_child ok tokens t = (ev4, t4, ce) \<Longrightarrow> ev \<in> set ev4 \<Longrightarrow> \<not> is_close ev \<and> \<not> is_dup2 ev"
  by (rule exec_child_cases [of ok tokens t]) (auto simp: is_close_def is_dup2_def)

lemma exec_child_table:
  "exec_child ok tokens t = (ev4, t4, ce) \<Longrightarrow> t4 = t \<or> t4 = []"
  by (rule exec_child_cases [of ok tokens t]) auto

lemma exec_child_Replaced:
  "exec_child ok tokens t = (ev4, t4, Replaced file argv) \<Longrightarrow> t4 = t"
  by (rule exec_child_cases [of ok tokens t]) auto

lemma spawned_nth:
  "i < k \<Longrightarrow> spawned e commands fds t [0..<k] ! i =
     pipeline_child e commands fds i (the (fork_res e i)) t"
  by (simp add: spawned_def)

text \<open>The child of stage \<open>i\<close>, once the pipes are made and the forks up to stage \<open>i\<close> succeed.\<close>

lemma child_of_stage:
  assumes i: "i < length commands"
    and pipes: "\<forall>j < length commands - 1. pipe_ok e j"
    and forked: "\<forall>j \<le> i. fork_res e j \<noteq> None"
  obtains st1 fds where "pipes_made st fds st1" "length fds = 2 * (length commands - 1)"
    "pipe_fds_of (events (execute_pipeline e commands st)) = fds"
    "i < length (children (execute_pipeline e commands st))"
    "children (execute_pipeline e commands st) ! i =
       pipeline_child e commands fds i (the (fork_res e i)) (fdt st1)"
proof -
  from i have "commands \<noteq> []"
    by auto
  then show thesis
  proof (cases rule: execute_pipeline_cases [where commands = commands and e = e and st = st])
    case (pipe_failed k st1 fds)
    with pipes show thesis
      by blast
  next
    case (fork_failed k st1 fds)
    let ?R = "execute_pipeline e commands st"
    from forked fork_failed(4) have ik: "i < k"
      by (meson not_le_imp_less)
    have ev: "events ?R = pipe_events fds @ forks e [0..<k] @ [ForkFailed, Perror ''Fork failed'']"
      and ch: "children ?R = spawned e commands fds (fdt st1) [0..<k]"
      by (simp_all add: fork_failed(7))
    from fork_failed(6) have "pipe_fds_of (events ?R) = fds"
      unfolding ev by (intro pipe_fds_of_trace) simp_all
    moreover have "i < length (children ?R)"
      using ik by (simp add: ch)
    moreover have "children ?R ! i = pipeline_child e commands fds i (the (fork_res e i)) (fdt st1)"
      unfolding ch using ik by (rule spawned_nth)
    ultimately show thesis
      using fork_failed(5,6) by (intro that [of fds st1])
  next
    case (completed st1 fds t3)
    let ?R = "execute_pipeline e commands st"
    have ev: "events ?R = pipe_events fds @ forks e [0..<length commands] @ closes fds @
        replicate (length commands) Wait"
      and ch: "children ?R = spawned e commands fds (fdt st1) [0..<length commands]"
      by (simp_all add: completed(6))
    from completed(4) have "pipe_fds_of (events ?R) = fds"
      unfolding ev by (intro pipe_fds_of_trace) simp_all
    moreover have "i < length (children ?R)"
      using i by (simp add: ch)
    moreover have "children ?R ! i = pipeline_child e commands fds i (the (fork_res e i)) (fdt st1)"
      unfolding ch using i by (rule spawned_nth)
    ultimately show thesis
      using completed(3,4) by (intro that [of fds st1])
  qed
qed

lemma pipeline_fds:
  assumes ne: "commands \<noteq> []"
    and pipes: "\<forall>i < length commands - 1. pipe_ok e i"
  obtains st1 fds where "pipes_made st fds st1" "length fds = 2 * (length commands - 1)"
    "pipe_fds_of (events (execute_pipeline e commands st)) = fds"
  using ne
proof (cases rule: execute_pipeline_cases [where commands = commands and e = e and st = st])
  case (pipe_failed k st1 fds)
  with pipes show thesis
    by blast
next
  case (fork_failed k st1 fds)
  let ?R = "execute_pipeline e commands st"
  have ev: "events ?R = pipe_events fds @ forks e [0..<k] @ [ForkFailed, Perror ''Fork failed'']"
    by (simp add: fork_failed(7))
  from fork_failed(6) have "pipe_fds_of (events ?R) = fds"
    unfolding ev by (intro pipe_fds_of_trace) simp_all
  with fork_failed(5,6) show thesis
    by (intro that [of fds st1])
next
  case (completed st1 fds t3)
  let ?R = "execute_pipeline e commands st"
  have ev: "events ?R = pipe_events fds @ forks e [0..<length commands] @ closes fds @
      replicate (length commands) Wait"
    by (simp add: completed(6))
  from completed(4) have "pipe_fds_of (events ?R) = fds"
    unfolding ev by (intro pipe_fds_of_trace) simp_all
  with completed(3,4) show thesis
    by (intro that [of fds st1])
qed

lemma pipeline_child_closes_all:
  assumes pm: "pipes_made st fds st1"
    and len: "length fds = 2 * (length commands - 1)"
    and i: "i < length commands"
  shows "child_closes_all e (length commands) fds i (pipeline_child e commands fds i pid (fdt st1))"
  using pm len i
proof (cases rule: pipeline_child_cases [where e = e and pid = pid])
  case stdin_failed
  then show ?thesis
    by (simp add: child_closes_all_def)
next
  case stdout_failed
  then show ?thesis
    by (auto simp: child_closes_all_def)
next
  case (redirected t3)
  obtain ev4 t4 ce where x: "exec_child (exec_ok e i) (split (commands ! i) CHR '' '') t3 = (ev4, t4, ce)"
    by (cases "exec_child (exec_ok e i) (split (commands ! i) CHR '' '') t3") auto
  let ?c = "pipeline_child e commands fds i pid (fdt st1)"
  let ?calls = "dup_in i fds True @ dup_out (length commands) i fds True @ closes fds"
  have ev: "cevents ?c = ?calls @ ev4" and t: "cfdt ?c = t4" and s: "stage ?c = i"
    by (simp_all add: redirected(4) x)
  have pre: "take (length ?calls) (cevents ?c) = ?calls"
    and post: "drop (length ?calls) (cevents ?c) = ev4"
    unfolding ev by simp_all
  from exec_child_table [OF x] have closed: "\<forall>fd \<in> set fds. fd_get (cfdt ?c) fd = None"
    by (auto simp: t redirected(3))
  have rest: "\<forall>ev \<in> set ev4. \<not> is_close ev \<and> \<not> is_dup2 ev"
    using exec_child_events [OF x] by blast
  from redirected(1,2) have n1: "\<not> (0 < i \<and> \<not> dup2_ok e i STDIN_FILENO)"
    and n2: "\<not> (i < length commands - 1 \<and> \<not> dup2_ok e i STDOUT_FILENO)"
    by auto
  from s closed pre rest show ?thesis
    unfolding child_closes_all_def if_not_P [OF n1] if_not_P [OF n2] post by blast
qed

text \<open>
  Claim C1. Take a pipeline of \<open>N \<ge> 2\<close> commands whose \<^verbatim>\<open>pipe\<close> calls succeed, and let
  \<open>fds\<close> be the descriptors these calls return: \<open>2 * (N - 1)\<close> distinct descriptors that
  were not open before. Every stage \<open>i\<close> that is forked has a child, and this child
  closes each descriptor of \<open>fds\<close> exactly once, with success, after its redirections
  and before anything else, \<^verbatim>\<open>execvp\<close> included; the only child that does not is one
  whose redirection failed, which reports it and exits (\<open>child_closes_all\<close>). When
  every \<^verbatim>\<open>fork\<close> call succeeds, the parent's calls are the \<^verbatim>\<open>pipe\<close> calls, then the
  \<open>N\<close> \<^verbatim>\<open>fork\<close> calls, then one successful \<^verbatim>\<open>close\<close> of each descriptor of \<open>fds\<close>, then
  the \<open>N\<close> \<^verbatim>\<open>wait\<close> calls: each endpoint is closed exactly once, after the spawning and
  before the first wait, there are \<open>N\<close> children, and when the reaping loop is done the
  parent's descriptor table is what it was before the call.
\<close>

theorem endpoints_closed_once:
  assumes "2 \<le> length commands"
    and "\<forall>i < length commands - 1. pipe_ok e i"
  shows
    "length (pipe_fds_of (events (execute_pipeline e commands st))) = 2 * (length commands - 1) \<and>
     distinct (pipe_fds_of (events (execute_pipeline e commands st))) \<and>
     (\<forall>fd \<in> set (pipe_fds_of (events (execute_pipeline e commands st))).
        fd_get (fdt st) fd = None) \<and>
     (\<forall>i < length commands. (\<forall>j \<le> i. fork_res e j \<noteq> None) \<longrightarrow>
        i < length (children (execute_pipeline e commands st)) \<and>
        child_closes_all e (length commands)
          (pipe_fds_of (events (execute_pipeline e commands st))) i
          (children (execute_pipeline e commands st) ! i)) \<and>
     ((\<forall>i < length commands. fork_res e i \<noteq> None) \<longrightarrow>
        events (execute_pipeline e commands st) =
          pipe_events (pipe_fds_of (events (execute_pipeline e commands st))) @
          forks e [0..<length commands] @
          closes (pipe_fds_of (events (execute_pipeline e commands st))) @
          replicate (length commands) Wait \<and>
        fd_get (fdt (state (execute_pipeline e commands st))) = fd_get (fdt st) \<and>
        length (children (execute_pipeline e commands st)) = length commands)"
proof -
  let ?R = "execute_pipeline e commands st"
  let ?N = "length commands"
  from assms(1) have ne: "commands \<noteq> []"
    by auto
  from ne assms(2) obtain sta fds where pm0: "pipes_made st fds sta"
    and len: "length fds = 2 * (?N - 1)" and fds: "pipe_fds_of (events ?R) = fds"
    by (rule pipeline_fds [of commands e st])
  from pm0 have a: "distinct fds" "\<forall>fd \<in> set fds. fd_get (fdt st) fd = None"
    by (simp_all add: pipes_made_def)
  have b: "i < length (children ?R) \<and> child_closes_all e ?N fds i (children ?R ! i)"
    if i: "i < ?N" and forked: "\<forall>j \<le> i. fork_res e j \<noteq> None" for i
  proof -
    from i assms(2) forked obtain st1 fds' where pm: "pipes_made st fds' st1"
      and len': "length fds' = 2 * (?N - 1)"
      and fds': "pipe_fds_of (events ?R) = fds'"
      and k: "i < length (children ?R)"
      and c: "children ?R ! i = pipeline_child e commands fds' i (the (fork_res e i)) (fdt st1)"
      by (rule child_of_stage [of i commands e st])
    from fds fds' have "fds' = fds"
      by simp
    with pm len' i c have "child_closes_all e ?N fds i (children ?R ! i)"
      using pipeline_child_closes_all [of st fds st1 commands i e] by simp
    with k show ?thesis
      by simp
  qed
  have c: "events ?R = pipe_events fds @ forks e [0..<?N] @ closes fds @ replicate ?N Wait \<and>
      fd_get (fdt (state ?R)) = fd_get (fdt st) \<and> length (children ?R) = ?N"
    if forked: "\<forall>i < ?N. fork_res e i \<noteq> None"
  proof -
    from ne assms(2) forked obtain st1 fds' t3 where pm: "pipes_made st fds' st1"
      and len': "length fds' = 2 * (?N - 1)"
      and g: "fd_get t3 = (\<lambda>fd. if fd \<in> set fds' then None else fd_get (fdt st1) fd)"
      and R: "?R = \<lparr>outcome = Returned,
          events = pipe_events fds' @ forks e [0..<?N] @ closes fds' @ replicate ?N Wait,
          state = st1\<lparr>fdt := t3\<rparr>,
          children = spawned e commands fds' (fdt st1) [0..<?N]\<rparr>"
      by (rule execute_pipeline_completes [of commands e st])
    have ev: "events ?R = pipe_events fds' @ forks e [0..<?N] @ closes fds' @ replicate ?N Wait"
      and ch: "children ?R = spawned e commands fds' (fdt st1) [0..<?N]"
      and tab: "fdt (state ?R) = t3"
      by (simp_all add: R)
    from len' have "pipe_fds_of (events ?R) = fds'"
      unfolding ev by (intro pipe_fds_of_trace) simp_all
    with fds have same_fds: "fds' = fds"
      by simp
    from pm have closed: "\<forall>fd \<in> set fds'. fd_get (fdt st) fd = None"
      and same: "\<forall>fd. fd \<notin> set fds' \<longrightarrow> fd_get (fdt st1) fd = fd_get (fdt st) fd"
      by (simp_all add: pipes_made_def)
    have "fd_get (fdt (state ?R)) = fd_get (fdt st)"
      unfolding tab g using closed same by (auto simp: fun_eq_iff)
    moreover have "length (children ?R) = ?N"
      by (simp add: ch)
    ultimately show ?thesis
      using ev same_fds by simp
  qed
  from a b c len show ?thesis
    unfolding fds by blast
qed

theorem endpoints_closed_once_witness:
  "2 \<le> length [''ls'', ''wc''] \<and>
   pipe_ok env_ok 0 \<and> fork_res env_ok 0 \<noteq> None \<and> fork_res env_ok 1 \<noteq> None \<and>
   pipe_fds_of (events (execute_pipeline env_ok [''ls'', ''wc''] st0)) = [3, 4] \<and>
   child_closes_all env_ok (length [''ls'', ''wc'']) [3, 4] 0
     (children (execute_pipeline env_ok [''ls'', ''wc''] st0) ! 0) \<and>
   child_closes_all env_ok (length [''ls'', ''wc'']) [3, 4] 1
     (children (execute_pipeline env_ok [''ls'', ''wc''] st0) ! 1) \<and>
   cevents (children (execute_pipeline env_ok [''ls'', ''wc''] st0) ! 1) =
     [Dup2 3 0 True, Close 3 True, Close 4 True, Execvp ''wc'' [''wc'']] \<and>
   events (execute_pipeline env_ok [''ls'', ''wc''] st0) =
     pipe_events [3, 4] @ forks env_ok [0..<length [''ls'', ''wc'']] @ closes [3, 4] @
       replicate (length [''ls'', ''wc'']) Wait \<and>
   fd_get (fdt (state (execute_pipeline env_ok [''ls'', ''wc''] st0))) = fd_get (fdt st0) \<and>
   length (children (execute_pipeline env_ok [''ls'', ''wc''] st0)) = length [''ls'', ''wc''] \<and>
   2 \<le> length [''quit'', ''wc''] \<and>
   pipe_ok env_dup2 0 \<and> fork_res env_dup2 0 \<noteq> None \<and> fork_res env_dup2 1 \<noteq> None \<and>
   \<not> dup2_ok env_dup2 1 STDIN_FILENO \<and>
   pipe_fds_of (events (execute_pipeline env_dup2 [''quit'', ''wc''] st0)) = [3, 4] \<and>
   child_closes_all env_dup2 (length [''quit'', ''wc'']) [3, 4] 1
     (children (execute_pipeline env_dup2 [''quit'', ''wc''] st0) ! 1) \<and>
   cevents (children (execute_pipeline env_dup2 [''quit'', ''wc''] st0) ! 1) =
     [Dup2 3 0 False, Perror ''dup2 stdin failed'', Exit EXIT_FAILURE]"
proof -
  let ?R = "execute_pipeline env_ok [''ls'', ''wc''] st0"
  let ?R2 = "execute_pipeline env_dup2 [''quit'', ''wc''] st0"
  have a: "2 \<le> length [''ls'', ''wc'']" and a2: "2 \<le> length [''quit'', ''wc'']"
    by simp_all
  have b: "\<forall>i < length [''ls'', ''wc''] - 1. pipe_ok env_ok i"
    and b2: "\<forall>i < length [''quit'', ''wc''] - 1. pipe_ok env_dup2 i"
    by simp_all
  have c: "\<forall>j \<le> i. fork_res env_ok j \<noteq> None" "\<forall>j \<le> i. fork_res env_dup2 j \<noteq> None" for i
    by simp_all
  have d: "\<forall>i < length [''ls'', ''wc'']. fork_res env_ok i \<noteq> None"
    by simp
  have fds: "pipe_fds_of (events ?R) = [3, 4]"
    by (simp add: run_ls_wc)
  have fds2: "pipe_fds_of (events ?R2) = [3, 4]"
    by (simp add: run_dup2_fails)
  have ev: "cevents (children ?R ! 1) =
      [Dup2 3 0 True, Close 3 True, Close 4 True, Execvp ''wc'' [''wc'']]"
    by (simp add: run_ls_wc)
  have ev2: "cevents (children ?R2 ! 1) =
      [Dup2 3 0 False, Perror ''dup2 stdin failed'', Exit EXIT_FAILURE]"
    by (simp add: run_dup2_fails EXIT_FAILURE_def)
  have f: "\<not> dup2_ok env_dup2 1 STDIN_FILENO"
    by (simp add: STDIN_FILENO_def)
  have i: "0 < length [''ls'', ''wc'']" "1 < length [''ls'', ''wc'']" "1 < length [''quit'', ''wc'']"
    by simp_all
  from endpoints_closed_once [OF a b, of st0, unfolded fds] c(1) d i(1,2)
  have "child_closes_all env_ok (length [''ls'', ''wc'']) [3, 4] 0 (children ?R ! 0)"
    and "child_closes_all env_ok (length [''ls'', ''wc'']) [3, 4] 1 (children ?R ! 1)"
    and "events ?R = pipe_events [3, 4] @ forks env_ok [0..<length [''ls'', ''wc'']] @
      closes [3, 4] @ replicate (length [''ls'', ''wc'']) Wait"
    and "fd_get (fdt (state ?R)) = fd_get (fdt st0)"
    and "length (children ?R) = length [''ls'', ''wc'']"
    by blast+
  moreover from endpoints_closed_once [OF a2 b2, of st0, unfolded fds2] c(2) i(3)
  have "child_closes_all env_dup2 (length [''quit'', ''wc'']) [3, 4] 1 (children ?R2 ! 1)"
    by blast
  ultimately show ?thesis
    using a a2 fds fds2 ev ev2 f by simp
qed

lemma std_distinct [simp]: "STDIN_FILENO \<noteq> STDOUT_FILENO" "STDOUT_FILENO \<noteq> STDIN_FILENO"
  by (simp_all add: STDIN_FILENO_def STDOUT_FILENO_def)

lemma dropWhile_all: "\<forall>x \<in> set xs. P x \<Longrightarrow> dropWhile P (xs @ ys) = dropWhile P ys"
  by (induction xs) simp_all

lemma pipeline_child_wired:
  assumes pm: "pipes_made st fds st1"
    and len: "length fds = 2 * (length commands - 1)"
    and i: "i < length commands"
  shows "stage_wired e st (length commands) fds i (pipeline_child e commands fds i pid (fdt st1))"
  using pm len i
proof (cases rule: pipeline_child_cases [where e = e and pid = pid])
  case stdin_failed
  then show ?thesis
    by (auto simp: stage_wired_def dup_in_def is_execvp_def EXIT_FAILURE_def)
next
  case stdout_failed
  let ?c = "pipeline_child e commands fds i pid (fdt st1)"
  have ev: "cevents ?c = dup_in i fds True @
      [Dup2 (fds ! (i * 2 + 1)) STDOUT_FILENO False, Perror ''dup2 stdout failed'', Exit EXIT_FAILURE]"
    using stdout_failed(1) by (simp add: stdout_failed(4) dup_out_def)
  have "\<exists>pre msg. cevents ?c = pre @ [Perror msg, Exit EXIT_FAILURE]"
    unfolding ev
    by (intro exI [of _ "dup_in i fds True @ [Dup2 (fds ! (i * 2 + 1)) STDOUT_FILENO False]"]
        exI [of _ "''dup2 stdout failed''"]) simp
  moreover have "\<forall>ev \<in> set (cevents ?c). \<not> is_execvp ev"
    by (auto simp: ev dup_in_def is_execvp_def)
  then have "dropWhile (\<lambda>ev. \<not> is_execvp ev) (cevents ?c) = []"
    by simp
  ultimately show ?thesis
    using stdout_failed(1,2,3)
    by (auto simp: stage_wired_def stdout_failed(4) dup_in_def dup_out_def is_execvp_def
        EXIT_FAILURE_def)
next
  case (redirected t3)
  let ?c = "pipeline_child e commands fds i pid (fdt st1)"
  let ?N = "length commands"
  obtain ev4 t4 ce where x: "exec_child (exec_ok e i) (split (commands ! i) CHR '' '') t3 = (ev4, t4, ce)"
    by (cases "exec_child (exec_ok e i) (split (commands ! i) CHR '' '') t3") auto
  have ev: "cevents ?c = (dup_in i fds True @ dup_out ?N i fds True @ closes fds) @ ev4"
    and t: "cfdt ?c = t4" and ce: "cend ?c = ce" and s: "stage ?c = i"
    by (simp_all add: redirected(4) x)
  have nodup: "\<forall>ev \<in> set (closes fds @ ev4). \<not> is_dup2 ev"
    using closes_is_close exec_child_events [OF x] by auto
  have "is_dup2 (Dup2 a b ok)" for a b ok
    by (simp add: is_dup2_def)
  with nodup have nodup': "Dup2 a b ok \<notin> set (closes fds @ ev4)" for a b ok
    by blast
  have a: "(\<exists>oldfd ok. Dup2 oldfd STDIN_FILENO ok \<in> set (cevents ?c)) \<longleftrightarrow> 0 < i"
    using nodup' by (auto simp: ev dup_in_def dup_out_def)
  have b: "0 < i \<longrightarrow> (\<exists>rest. cevents ?c =
      Dup2 (fds ! ((i - 1) * 2)) STDIN_FILENO (dup2_ok e i STDIN_FILENO) # rest)"
    using redirected(1) by (auto simp: ev dup_in_def)
  have c: "(\<exists>oldfd ok. Dup2 oldfd STDOUT_FILENO ok \<in> set (cevents ?c)) \<longleftrightarrow> i < ?N - 1"
    using nodup' by (auto simp: ev dup_in_def dup_out_def)
  have d: "i < ?N - 1 \<longrightarrow>
      Dup2 (fds ! (i * 2 + 1)) STDOUT_FILENO (dup2_ok e i STDOUT_FILENO) \<in> set (cevents ?c)"
    using redirected(2) by (auto simp: ev dup_out_def)
  have f: "\<not> ((0 < i \<and> \<not> dup2_ok e i STDIN_FILENO) \<or> (i < ?N - 1 \<and> \<not> dup2_ok e i STDOUT_FILENO))"
    using redirected(1,2) by auto
  have "\<forall>ev \<in> set (dup_in i fds True @ dup_out ?N i fds True @ closes fds). \<not> is_execvp ev"
    using closes_is_close by (auto simp: dup_in_def dup_out_def is_execvp_def)
  then have "dropWhile (\<lambda>ev. \<not> is_execvp ev) (cevents ?c) = dropWhile (\<lambda>ev. \<not> is_execvp ev) ev4"
    unfolding ev by (intro dropWhile_all) simp
  then have g: "\<forall>ev \<in> set (dropWhile (\<lambda>ev. \<not> is_execvp ev) (cevents ?c)). \<not> is_dup2 ev"
    using nodup set_dropWhileD by fastforce
  have h: "fd_get (cfdt ?c) STDIN_FILENO =
          (if 0 < i then Some (ReadEnd (npipes st + (i - 1))) else fd_get (fdt st) STDIN_FILENO) \<and>
        fd_get (cfdt ?c) STDOUT_FILENO =
          (if i < ?N - 1 then Some (WriteEnd (npipes st + i)) else fd_get (fdt st) STDOUT_FILENO)"
    if std: "fd_get (fdt st) STDIN_FILENO \<noteq> None" "fd_get (fdt st) STDOUT_FILENO \<noteq> None"
      and rep: "cend ?c = Replaced prog argv" for prog argv
  proof -
    from rep x have "t4 = t3"
      using exec_child_Replaced by (simp add: ce)
    then have tab: "fd_get (cfdt ?c) = (\<lambda>fd. if fd \<in> set fds then None
        else redirected ?N i fds (fd_get (fdt st1)) fd)"
      by (simp add: t redirected(3))
    from pm std have notin: "STDIN_FILENO \<notin> set fds" "STDOUT_FILENO \<notin> set fds"
      by (auto simp: pipes_made_def)
    with pm have same: "fd_get (fdt st1) STDIN_FILENO = fd_get (fdt st) STDIN_FILENO"
      "fd_get (fdt st1) STDOUT_FILENO = fd_get (fdt st) STDOUT_FILENO"
      by (simp_all add: pipes_made_def)
    have r: "fd_get (fdt st1) (fds ! ((i - 1) * 2)) = Some (ReadEnd (npipes st + (i - 1)))" if "0 < i"
    proof -
      from that i len have "(i - 1) * 2 < length fds"
        by simp
      with pm have "fd_get (fdt st1) (fds ! ((i - 1) * 2)) = Some (end_of (npipes st) ((i - 1) * 2))"
        by (simp add: pipes_made_def)
      then show ?thesis
        by (simp add: end_of_def)
    qed
    have w: "fd_get (fdt st1) (fds ! (i * 2 + 1)) = Some (WriteEnd (npipes st + i))
        \<and> fds ! (i * 2 + 1) \<noteq> STDIN_FILENO" if "i < ?N - 1"
    proof -
      from that len have k: "i * 2 + 1 < length fds"
        by simp
      with pm have "fd_get (fdt st1) (fds ! (i * 2 + 1)) = Some (end_of (npipes st) (i * 2 + 1))"
        by (simp add: pipes_made_def)
      moreover from k notin have "fds ! (i * 2 + 1) \<noteq> STDIN_FILENO"
        using nth_mem by metis
      ultimately show ?thesis
        by (simp add: end_of_def)
    qed
    from notin same r w show ?thesis
      unfolding tab redirected_def Let_def by auto
  qed
  from a b c d f g h s show ?thesis
    unfolding stage_wired_def by blast
qed

text \<open>
  Claim C2. In a pipeline of \<open>N\<close> commands, for every stage \<open>i < N\<close> whose child is spawned
  (the \<^verbatim>\<open>pipe\<close> calls and the \<^verbatim>\<open>fork\<close> calls up to stage \<open>i\<close> succeed): the child
  calls \<^verbatim>\<open>dup2\<close> onto standard input if and only if \<open>i > 0\<close>, and then first of all and
  from the read end of channel \<open>i - 1\<close>; unless that call failed, it calls \<^verbatim>\<open>dup2\<close> onto
  standard output if and only if \<open>i < N - 1\<close>, and then from the write end of channel \<open>i\<close>;
  when either call fails the child reports it and exits with the non-zero status
  \<open>EXIT_FAILURE\<close> without calling \<^verbatim>\<open>execvp\<close>; no \<^verbatim>\<open>dup2\<close> call comes at or after the
  \<^verbatim>\<open>execvp\<close> call; and when the interpreter's standard input and output are open and the
  image is replaced, the new program's standard input is the read end of channel \<open>i - 1\<close>
  (for \<open>i > 0\<close>, otherwise the inherited one) and its standard output the write end of
  channel \<open>i\<close> (for \<open>i < N - 1\<close>, otherwise the inherited one).
\<close>

theorem stage_redirections:
  assumes "i < length commands"
    and "\<forall>j < length commands - 1. pipe_ok e j"
    and "\<forall>j \<le> i. fork_res e j \<noteq> None"
  shows "i < length (children (execute_pipeline e commands st)) \<and>
    stage_wired e st (length commands) (pipe_fds_of (events (execute_pipeline e commands st))) i
      (children (execute_pipeline e commands st) ! i)"
proof -
  from assms obtain st1 fds where "pipes_made st fds st1" "length fds = 2 * (length commands - 1)"
    "pipe_fds_of (events (execute_pipeline e commands st)) = fds"
    "i < length (children (execute_pipeline e commands st))"
    "children (execute_pipeline e commands st) ! i =
       pipeline_child e commands fds i (the (fork_res e i)) (fdt st1)"
    by (rule child_of_stage [of i commands e st])
  with assms(1) show ?thesis
    using pipeline_child_wired [of st fds st1 commands i e] by simp
qed

theorem stage_redirections_witness:
  "1 < length [''ls'', ''wc''] \<and>
   stage_wired env_ok st0 (length [''ls'', ''wc''])
     (pipe_fds_of (events (execute_pipeline env_ok [''ls'', ''wc''] st0))) 1
     (children (execute_pipeline env_ok [''ls'', ''wc''] st0) ! 1) \<and>
   cevents (children (execute_pipeline env_ok [''ls'', ''wc''] st0) ! 1) =
     [Dup2 3 0 True, Close 3 True, Close 4 True, Execvp ''wc'' [''wc'']] \<and>
   fd_get (cfdt (children (execute_pipeline env_ok [''ls'', ''wc''] st0) ! 1)) STDIN_FILENO =
     Some (ReadEnd 0)"
proof -
  have a: "1 < length [''ls'', ''wc'']"
    by simp
  have b: "\<forall>j < length [''ls'', ''wc''] - 1. pipe_ok env_ok j"
    and c: "\<forall>j \<le> 1. fork_res env_ok j \<noteq> None"
    by simp_all
  have "cevents (children (execute_pipeline env_ok [''ls'', ''wc''] st0) ! 1) =
     [Dup2 3 0 True, Close 3 True, Close 4 True, Execvp ''wc'' [''wc'']]"
    and "fd_get (cfdt (children (execute_pipeline env_ok [''ls'', ''wc''] st0) ! 1)) STDIN_FILENO =
     Some (ReadEnd 0)"
    by (simp_all add: run_ls_wc fd_get_def STDIN_FILENO_def)
  with stage_redirections [OF a b c, of st0] a show ?thesis
    by blast
qed

section \<open>The driver loop\<close>

lemma and_then_simps [simp]:
  "outcome (and_then evs cs s) = outcome s" "unread (and_then evs cs s) = unread s"
  "state (and_then evs cs s) = state s" "events (and_then evs cs s) = evs @ events s"
  "children (and_then evs cs s) = cs @ children s"
  by (simp_all add: and_then_def)

lemma execute_command_state [simp]: "state (execute_command e cmd_tokens st) = st"
  by (simp add: execute_command_def split: option.splits prod.splits)

lemma execute_command_outcome:
  "outcome (execute_command e cmd_tokens st) =
     (if cmd_tokens \<noteq> [] \<and> cmd_tokens ! 0 = ''quit'' then Exited 0 else Returned)"
  by (simp add: execute_command_def split: option.splits prod.splits)

lemma execute_pipeline_outcome:
  "commands \<noteq> [] \<Longrightarrow> outcome (execute_pipeline e commands st) = Returned"
  by (cases rule: execute_pipeline_cases [where commands = commands and e = e and st = st]) simp_all

lemma pipes_made_keeps_open:
  fixes st st1 :: kstate
  shows "pipes_made st fds st1 \<Longrightarrow> fd_get (fdt st) fd \<noteq> None \<Longrightarrow>
   fd \<notin> set fds \<and> fd_get (fdt st1) fd = fd_get (fdt st) fd"
proof -
  assume pm: "pipes_made st fds st1" and o: "fd_get (fdt st) fd \<noteq> None"
  from pm have "\<forall>fd \<in> set fds. fd_get (fdt st) fd = None"
    and same: "\<forall>fd. fd \<notin> set fds \<longrightarrow> fd_get (fdt st1) fd = fd_get (fdt st) fd"
    by (simp_all add: pipes_made_def)
  with o have "fd \<notin> set fds"
    by auto
  with same show ?thesis
    by simp
qed

lemma execute_pipeline_keeps_open:
  assumes "fd_get (fdt st) fd \<noteq> None"
  shows "fd_get (fdt (state (execute_pipeline e commands st))) fd = fd_get (fdt st) fd"
proof (cases "commands = []")
  case True
  then show ?thesis
    by (simp add: execute_pipeline_def)
next
  case False
  then show ?thesis
  proof (cases rule: execute_pipeline_cases [where commands = commands and e = e and st = st])
    case (pipe_failed k st1 fds)
    with assms show ?thesis
      using pipes_made_keeps_open [of st fds st1 fd] by simp
  next
    case (fork_failed k st1 fds)
    with assms show ?thesis
      using pipes_made_keeps_open [of st fds st1 fd] by simp
  next
    case (completed st1 fds t3)
    with assms show ?thesis
      using pipes_made_keeps_open [of st fds st1 fd] by simp
  qed
qed

lemma main_loop_Cons:
  "main_loop envs n (input # rest) st =
     (if input = [] \<or> (input \<noteq> ''quit'' \<and> split input CHR ''|'' = [])
      then and_then [Prompt] [] (main_loop envs (Suc n) rest st)
      else if input = ''quit''
      then \<lparr>outcome = Exited 0, events = [Prompt], state = st, children = [], unread = rest\<rparr>
      else if outcome (dispatch (envs n) (split input CHR ''|'') st) = Returned
      then and_then (Prompt # events (dispatch (envs n) (split input CHR ''|'') st))
             (children (dispatch (envs n) (split input CHR ''|'') st))
             (main_loop envs (Suc n) rest (state (dispatch (envs n) (split input CHR ''|'') st)))
      else \<lparr>outcome = outcome (dispatch (envs n) (split input CHR ''|'') st),
            events = Prompt # events (dispatch (envs n) (split input CHR ''|'') st),
            state = state (dispatch (envs n) (split input CHR ''|'') st),
            children = children (dispatch (envs n) (split input CHR ''|'') st),
            unread = rest\<rparr>)"
  by (simp add: dispatch_def Let_def split: outcome.splits)

declare main_loop.simps(2) [simp del]

lemma dispatch_keeps_open:
  "fd_get (fdt st) fd \<noteq> None \<Longrightarrow>
   fd_get (fdt (state (dispatch e commands st))) fd = fd_get (fdt st) fd"
  by (simp add: dispatch_def execute_pipeline_keeps_open)

lemma main_loop_keeps_open:
  "fd_get (fdt st) fd \<noteq> None \<Longrightarrow>
   fd_get (fdt (state (main_loop envs n lines st))) fd = fd_get (fdt st) fd"
proof (induction lines arbitrary: n st)
  case Nil
  then show ?case by simp
next
  case (Cons input rest)
  let ?r = "dispatch (envs n) (split input CHR ''|'') st"
  have r: "fd_get (fdt (state ?r)) fd = fd_get (fdt st) fd"
    using Cons.prems by (rule dispatch_keeps_open)
  with Cons.prems have "fd_get (fdt (state ?r)) fd \<noteq> None"
    by simp
  from Cons.IH [OF this, of "Suc n"] r
  have "fd_get (fdt (state (main_loop envs (Suc n) rest (state ?r)))) fd = fd_get (fdt st) fd"
    by simp
  with Cons.IH [OF Cons.prems, of "Suc n"] r show ?case
    unfolding main_loop_Cons by simp
qed

text \<open>
  Claim C9. When a \<^verbatim>\<open>pipe\<close> call fails after \<open>k > 0\<close> channels were created, or the
  \<^verbatim>\<open>fork\<close> call of stage \<open>k\<close> of a pipeline of at least two commands fails,
  \<open>execute_pipeline\<close> reports the failure and returns at once: its trace has no
  \<^verbatim>\<open>close\<close> and no \<^verbatim>\<open>wait\<close> call, the \<open>k\<close> children already forked are not reaped,
  and every descriptor returned by its \<^verbatim>\<open>pipe\<close> calls (closed before the call) is open
  in the interpreter when it returns and stays open whatever lines the driver loop
  processes afterwards.
\<close>

theorem failed_pipeline_leaks:
  "(((0 < k \<and> k < length commands - 1 \<and> (\<forall>i < k. pipe_ok e i) \<and> \<not> pipe_ok e k)
       \<longrightarrow>
       events (execute_pipeline e commands st) =
         pipe_events (pipe_fds_of (events (execute_pipeline e commands st))) @
           [PipeFailed, Perror ''Pipe failed''] \<and>
       length (pipe_fds_of (events (execute_pipeline e commands st))) = 2 * k \<and>
       children (execute_pipeline e commands st) = []) \<and>
    ((2 \<le> length commands \<and> (\<forall>i < length commands - 1. pipe_ok e i) \<and>
      k < length commands \<and> (\<forall>i < k. fork_res e i \<noteq> None) \<and> fork_res e k = None)
       \<longrightarrow>
       events (execute_pipeline e commands st) =
         pipe_events (pipe_fds_of (events (execute_pipeline e commands st))) @
           forks e [0..<k] @ [ForkFailed, Perror ''Fork failed''] \<and>
       length (pipe_fds_of (events (execute_pipeline e commands st))) = 2 * (length commands - 1) \<and>
       length (children (execute_pipeline e commands st)) = k)) \<and>
   (((0 < k \<and> k < length commands - 1 \<and> (\<forall>i < k. pipe_ok e i) \<and> \<not> pipe_ok e k) \<or>
     (2 \<le> length commands \<and> (\<forall>i < length commands - 1. pipe_ok e i) \<and>
      k < length commands \<and> (\<forall>i < k. fork_res e i \<noteq> None) \<and> fork_res e k = None))
      \<longrightarrow>
      outcome (execute_pipeline e commands st) = Returned \<and>
      (\<forall>ev \<in> set (events (execute_pipeline e commands st)). \<not> is_close ev \<and> ev \<noteq> Wait) \<and>
      pipe_fds_of (events (execute_pipeline e commands st)) \<noteq> [] \<and>
      (\<forall>fd \<in> set (pipe_fds_of (events (execute_pipeline e commands st))).
         fd_get (fdt st) fd = None \<and>
         fd_get (fdt (state (execute_pipeline e commands st))) fd \<noteq> None \<and>
         (\<forall>envs n lines.
            fd_get (fdt (state (main_loop envs n lines (state (execute_pipeline e commands st))))) fd
              \<noteq> None)))"
proof -
  let ?R = "execute_pipeline e commands st"
  let ?fds = "pipe_fds_of (events ?R)"
  have noclose: "\<forall>ev \<in> set (pipe_events fds). \<not> is_close ev \<and> ev \<noteq> Wait" for fds
    using pipe_events_kind by (fastforce simp: is_close_def)
  have noclose': "\<forall>ev \<in> set (forks e is). \<not> is_close ev \<and> ev \<noteq> Wait" for "is"
    by (auto simp: forks_def is_close_def)
  have "open": "\<forall>fd \<in> set fds. fd_get (fdt st) fd = None \<and> fd_get (fdt st1) fd \<noteq> None \<and>
      (\<forall>envs n lines. fd_get (fdt (state (main_loop envs n lines st1))) fd \<noteq> None)"
    if pm: "pipes_made st fds st1" for fds st1
  proof
    fix fd
    assume fd: "fd \<in> set fds"
    with pm have c: "fd_get (fdt st) fd = None"
      by (simp add: pipes_made_def)
    from fd obtain j where "j < length fds" "fds ! j = fd"
      by (auto simp: in_set_conv_nth)
    with pm have o: "fd_get (fdt st1) fd \<noteq> None"
      using pipes_made_open by blast
    then have "fd_get (fdt (state (main_loop envs n lines st1))) fd \<noteq> None" for envs n lines
      by (simp add: main_loop_keeps_open)
    with c o show "fd_get (fdt st) fd = None \<and> fd_get (fdt st1) fd \<noteq> None \<and>
      (\<forall>envs n lines. fd_get (fdt (state (main_loop envs n lines st1))) fd \<noteq> None)"
      by blast
  qed
  have p: "events ?R = pipe_events ?fds @ [PipeFailed, Perror ''Pipe failed''] \<and>
      length ?fds = 2 * k \<and> children ?R = [] \<and> outcome ?R = Returned \<and>
      (\<forall>ev \<in> set (events ?R). \<not> is_close ev \<and> ev \<noteq> Wait) \<and> ?fds \<noteq> [] \<and>
      (\<forall>fd \<in> set ?fds. fd_get (fdt st) fd = None \<and> fd_get (fdt (state ?R)) fd \<noteq> None \<and>
         (\<forall>envs n lines. fd_get (fdt (state (main_loop envs n lines (state ?R)))) fd \<noteq> None))"
    if k: "0 < k" "k < length commands - 1" "\<forall>i < k. pipe_ok e i" "\<not> pipe_ok e k"
  proof -
    from k(2-4) obtain st1 fds where pm: "pipes_made st fds st1" and len: "length fds = 2 * k"
      and R: "?R = \<lparr>outcome = Returned,
          events = pipe_events fds @ [PipeFailed, Perror ''Pipe failed''],
          state = st1, children = []\<rparr>"
      by (rule execute_pipeline_pipe_fails [of k commands e st])
    have ev: "events ?R = pipe_events fds @ [PipeFailed, Perror ''Pipe failed'']"
      and s: "state ?R = st1" "children ?R = []" "outcome ?R = Returned"
      by (simp_all add: R)
    from len have fds: "?fds = fds"
      unfolding ev by (intro pipe_fds_of_trace) simp_all
    have "\<forall>ev \<in> set (events ?R). \<not> is_close ev \<and> ev \<noteq> Wait"
      using noclose [of fds] by (simp add: ev is_close_def)
    moreover from len k(1) have "fds \<noteq> []"
      by auto
    ultimately show ?thesis
      unfolding fds s using "open" [OF pm] len ev by blast
  qed
  have f: "events ?R = pipe_events ?fds @ forks e [0..<k] @ [ForkFailed, Perror ''Fork failed''] \<and>
      length ?fds = 2 * (length commands - 1) \<and> length (children ?R) = k \<and>
      outcome ?R = Returned \<and>
      (\<forall>ev \<in> set (events ?R). \<not> is_close ev \<and> ev \<noteq> Wait) \<and> ?fds \<noteq> [] \<and>
      (\<forall>fd \<in> set ?fds. fd_get (fdt st) fd = None \<and> fd_get (fdt (state ?R)) fd \<noteq> None \<and>
         (\<forall>envs n lines. fd_get (fdt (state (main_loop envs n lines (state ?R)))) fd \<noteq> None))"
    if k: "2 \<le> length commands" "\<forall>i < length commands - 1. pipe_ok e i"
      "k < length commands" "\<forall>i < k. fork_res e i \<noteq> None" "fork_res e k = None"
  proof -
    from k(2-5) obtain st1 fds where pm: "pipes_made st fds st1"
      and len: "length fds = 2 * (length commands - 1)"
      and R: "?R = \<lparr>outcome = Returned,
          events = pipe_events fds @ forks e [0..<k] @ [ForkFailed, Perror ''Fork failed''],
          state = st1, children = spawned e commands fds (fdt st1) [0..<k]\<rparr>"
      by (rule execute_pipeline_fork_fails [of commands e k st])
    have ev: "events ?R = pipe_events fds @ forks e [0..<k] @ [ForkFailed, Perror ''Fork failed'']"
      and s: "state ?R = st1" "outcome ?R = Returned"
      and ch: "length (children ?R) = k"
      by (simp_all add: R)
    from len have fds: "?fds = fds"
      unfolding ev by (intro pipe_fds_of_trace) simp_all
    have "\<forall>ev \<in> set (events ?R). \<not> is_close ev \<and> ev \<noteq> Wait"
      using noclose [of fds] noclose' [of "[0..<k]"] by (auto simp: ev is_close_def)
    moreover from len k(1) have "fds \<noteq> []"
      by auto
    ultimately show ?thesis
      unfolding fds s using "open" [OF pm] len ev ch by blast
  qed
  from p f show ?thesis
    by blast
qed

theorem failed_pipeline_leaks_witness:
  "(0 < (1::nat) \<and> 1 < length [''ls'', ''sort'', ''wc''] - 1 \<and> pipe_ok env_pipe1 0 \<and>
      \<not> pipe_ok env_pipe1 1) \<and>
   events (execute_pipeline env_pipe1 [''ls'', ''sort'', ''wc''] st0) =
     [Pipe 3 4, PipeFailed, Perror ''Pipe failed''] \<and>
   fd_get (fdt (state (main_loop (\<lambda>n. env_ok) 0 [''ls | wc'']
     (state (execute_pipeline env_pipe1 [''ls'', ''sort'', ''wc''] st0))))) 3 \<noteq> None \<and>
   (2 \<le> length [''ls'', ''wc''] \<and> pipe_ok env_fork1 0 \<and>
      1 < length [''ls'', ''wc''] \<and> fork_res env_fork1 0 \<noteq> None \<and>
      fork_res env_fork1 1 = None) \<and>
   length (children (execute_pipeline env_fork1 [''ls'', ''wc''] st0)) = 1 \<and>
   fd_get (fdt (state (main_loop (\<lambda>n. env_ok) 0 [''ls | wc'']
     (state (execute_pipeline env_fork1 [''ls'', ''wc''] st0))))) 4 \<noteq> None"
proof -
  let ?P = "execute_pipeline env_pipe1 [''ls'', ''sort'', ''wc''] st0"
  let ?F = "execute_pipeline env_fork1 [''ls'', ''wc''] st0"
  have p: "0 < (1::nat) \<and> 1 < length [''ls'', ''sort'', ''wc''] - 1 \<and>
      (\<forall>i < 1. pipe_ok env_pipe1 i) \<and> \<not> pipe_ok env_pipe1 1"
    by (simp add: env_pipe1_def env_ok_def)
  have f: "2 \<le> length [''ls'', ''wc''] \<and> (\<forall>i < length [''ls'', ''wc''] - 1. pipe_ok env_fork1 i) \<and>
      1 < length [''ls'', ''wc''] \<and> (\<forall>i < 1. fork_res env_fork1 i \<noteq> None) \<and>
      fork_res env_fork1 1 = None"
    by (simp add: env_fork1_def env_ok_def)
  have pf: "pipe_fds_of (events ?P) = [3, 4]" and ff: "pipe_fds_of (events ?F) = [3, 4]"
    by (simp_all add: run_pipe_fails run_fork_fails)
  from failed_pipeline_leaks [of 1 "[''ls'', ''sort'', ''wc'']" env_pipe1 st0] p
  have "\<forall>fd \<in> set (pipe_fds_of (events ?P)). \<forall>envs n lines.
      fd_get (fdt (state (main_loop envs n lines (state ?P)))) fd \<noteq> None"
    by blast
  then have 1: "fd_get (fdt (state (main_loop (\<lambda>n. env_ok) 0 [''ls | wc''] (state ?P)))) 3 \<noteq> None"
    unfolding pf by simp
  from failed_pipeline_leaks [of 1 "[''ls'', ''wc'']" env_fork1 st0] f
  have "length (children ?F) = 1" and "\<forall>fd \<in> set (pipe_fds_of (events ?F)). \<forall>envs n lines.
      fd_get (fdt (state (main_loop envs n lines (state ?F)))) fd \<noteq> None"
    by blast+
  then have 2: "length (children ?F) = 1"
    "fd_get (fdt (state (main_loop (\<lambda>n. env_ok) 0 [''ls | wc''] (state ?F)))) 4 \<noteq> None"
    unfolding ff by simp_all
  have "events ?P = [Pipe 3 4, PipeFailed, Perror ''Pipe failed'']"
    by (simp add: run_pipe_fails)
  moreover have "pipe_ok env_pipe1 0" "\<not> pipe_ok env_pipe1 1" "pipe_ok env_fork1 0"
    "fork_res env_fork1 0 \<noteq> None" "fork_res env_fork1 1 = None"
    by (simp_all add: env_pipe1_def env_fork1_def env_ok_def)
  ultimately show ?thesis
    using 1 2 by simp
qed

lemma quits_literal: "quits ''quit''"
  unfolding quits_def by code_simp

lemma split_Nil [simp]: "split [] d = []"
  by (simp add: split_def split_loop.simps getline_delim_def)

lemma not_quits_Nil: "\<not> quits []"
  by (simp add: quits_def)

lemma dispatch_outcome:
  assumes "split input CHR ''|'' \<noteq> []"
  shows "outcome (dispatch e (split input CHR ''|'') st) =
    (if quits input then Exited 0 else Returned)"
proof (cases "split input CHR ''|''")
  case Nil
  with assms show ?thesis by simp
next
  case (Cons c cs)
  show ?thesis
  proof (cases cs)
    case Nil
    with Cons have "outcome (dispatch e (split input CHR ''|'') st) =
        outcome (execute_command e (split c CHR '' '') st)"
      by (simp add: dispatch_def)
    with Cons Nil show ?thesis
      by (cases "split c CHR '' ''") (simp_all add: execute_command_outcome quits_def)
  next
    case (Cons c' cs')
    with \<open>split input CHR ''|'' = c # cs\<close> show ?thesis
      by (simp add: dispatch_def execute_pipeline_outcome quits_def)
  qed
qed

lemma dispatch_quit:
  assumes "quits input"
  shows "dispatch e (split input CHR ''|'') st =
    \<lparr>outcome = Exited 0, events = [Exit 0], state = st, children = []\<rparr>"
proof -
  from assms obtain c t ts where "split input CHR ''|'' = [c]" "split c CHR '' '' = t # ts" "t = ''quit''"
    by (auto simp: quits_def split: list.splits)
  then show ?thesis
    by (simp add: dispatch_def execute_command_def)
qed

lemma main_loop_quits:
  assumes "quits input"
  shows "main_loop envs n (input # rest) st =
    \<lparr>outcome = Exited 0, events = Prompt # (if input = ''quit'' then [] else [Exit 0]),
     state = st, children = [], unread = rest\<rparr>"
proof -
  from assms have "input \<noteq> []" "split input CHR ''|'' \<noteq> []"
    using not_quits_Nil by (auto simp: quits_def)
  with assms show ?thesis
    unfolding main_loop_Cons by (simp add: dispatch_quit)
qed

lemma main_loop_goes_on:
  assumes "\<not> quits input"
  shows "\<exists>evs cs st'. main_loop envs n (input # rest) st =
    and_then evs cs (main_loop envs (Suc n) rest st')"
proof -
  from assms have nq: "input \<noteq> ''quit''"
    using quits_literal by auto
  show ?thesis
  proof (cases "input = [] \<or> split input CHR ''|'' = []")
    case True
    with nq have "main_loop envs n (input # rest) st =
        and_then [Prompt] [] (main_loop envs (Suc n) rest st)"
      unfolding main_loop_Cons by auto
    then show ?thesis
      by blast
  next
    case False
    with assms have "outcome (dispatch (envs n) (split input CHR ''|'') st) = Returned"
      by (simp add: dispatch_outcome)
    with False nq have "main_loop envs n (input # rest) st =
        and_then (Prompt # events (dispatch (envs n) (split input CHR ''|'') st))
             (children (dispatch (envs n) (split input CHR ''|'') st))
             (main_loop envs (Suc n) rest (state (dispatch (envs n) (split input CHR ''|'') st)))"
      unfolding main_loop_Cons by simp
    then show ?thesis
      by blast
  qed
qed

text \<open>
  Claim C5. Whatever the environment does (failed \<^verbatim>\<open>pipe\<close>, \<^verbatim>\<open>fork\<close>, \<^verbatim>\<open>dup2\<close> or
  \<^verbatim>\<open>execvp\<close> calls included), the interpreter ends with exit status 0, and it ends
  exactly at the first line that parses to a single command whose first token is
  \<^verbatim>\<open>quit\<close>, or at the end of the input when there is no such line: the lines left
  unread are those after that line. On such a line it ends before any child is
  spawned; on any other line the loop goes on to the next line.
\<close>

theorem interpreter_exit:
  "outcome (main_loop envs n lines st) = Exited 0 \<and>
   unread (main_loop envs n lines st) = drop 1 (dropWhile (\<lambda>l. \<not> quits l) lines) \<and>
   (quits input \<longrightarrow>
      main_loop envs n (input # rest) st =
        \<lparr>outcome = Exited 0, events = Prompt # (if input = ''quit'' then [] else [Exit 0]),
         state = st, children = [], unread = rest\<rparr>) \<and>
   (\<not> quits input \<longrightarrow>
      (\<exists>evs cs st'. main_loop envs n (input # rest) st =
         and_then evs cs (main_loop envs (Suc n) rest st')))"
proof -
  have "outcome (main_loop envs n lines st) = Exited 0 \<and>
      unread (main_loop envs n lines st) = drop 1 (dropWhile (\<lambda>l. \<not> quits l) lines)"
  proof (induction lines arbitrary: n st)
    case Nil
    then show ?case by simp
  next
    case (Cons l ls)
    show ?case
    proof (cases "quits l")
      case True
      then show ?thesis
        by (simp add: main_loop_quits)
    next
      case False
      then obtain evs cs st' where
        "main_loop envs n (l # ls) st = and_then evs cs (main_loop envs (Suc n) ls st')"
        using main_loop_goes_on by blast
      with False Cons.IH [of "Suc n" st'] show ?thesis
        by simp
    qed
  qed
  then show ?thesis
    using main_loop_quits main_loop_goes_on by blast
qed

theorem interpreter_exit_witness:
  "quits '' quit  now'' \<and> \<not> quits ''ls | wc'' \<and>
   outcome (main_loop (\<lambda>n. env_ok) 0 [''ls | wc'', '' quit  now'', ''echo''] st0) = Exited 0 \<and>
   unread (main_loop (\<lambda>n. env_ok) 0 [''ls | wc'', '' quit  now'', ''echo''] st0) = [''echo''] \<and>
   main_loop (\<lambda>n. env_ok) 1 ['' quit  now'', ''echo''] st0 =
     \<lparr>outcome = Exited 0, events = [Prompt, Exit 0], state = st0, children = [],
      unread = [''echo'']\<rparr>"
proof -
  note q = session_quit
  from interpreter_exit [of "\<lambda>n. env_ok" 0 "[''ls | wc'', '' quit  now'', ''echo'']" st0
      "'' quit  now''" "[''echo'']"]
  have "outcome (main_loop (\<lambda>n. env_ok) 0 [''ls | wc'', '' quit  now'', ''echo''] st0) = Exited 0"
    and "unread (main_loop (\<lambda>n. env_ok) 0 [''ls | wc'', '' quit  now'', ''echo''] st0) = [''echo'']"
    using q by simp_all
  moreover from interpreter_exit [of "\<lambda>n. env_ok" 1 "[]" st0 "'' quit  now''" "[''echo'']"] q
  have "main_loop (\<lambda>n. env_ok) 1 ['' quit  now'', ''echo''] st0 =
     \<lparr>outcome = Exited 0, events = [Prompt, Exit 0], state = st0, children = [],
      unread = [''echo'']\<rparr>"
    by simp
  ultimately show ?thesis
    using q by blast
qed

section \<open>The token \<^verbatim>\<open>quit\<close> in a pipeline\<close>

lemma filter_execvp_calls [simp]:
  "filter is_execvp (dup_in i fds ok) = []" "filter is_execvp (dup_out n i fds ok) = []"
  "filter is_execvp (closes fds) = []"
  by (simp_all add: dup_in_def dup_out_def closes_def is_execvp_def)





section \<open>The argument cap\<close>

text \<open>
  Claim C4, as amended. The source has no \<open>TooManyArguments\<close> error and no check of the
  token count. For a command of fewer than \<open>MAX_ARGS\<close> tokens (at most 63),
  \<open>get_args\<close> writes the tokens and the null sentinel into the array and nothing past
  its bound, and \<^verbatim>\<open>execvp\<close> reads the tokens back. For a non-empty command whose first
  token is not \<^verbatim>\<open>quit\<close>, \<open>execute_command\<close> forks whenever \<^verbatim>\<open>fork\<close> succeeds, whatever
  the number of tokens, and the parent reports nothing.
\<close>

theorem get_args_within_bound:
  "(length parts < MAX_ARGS \<longrightarrow>
      beyond (get_args parts fresh_args) = [] \<and>
      cells (get_args parts fresh_args) =
        map Ptr parts @ Null # replicate (MAX_ARGS - length parts - 1) Uninit \<and>
      length (cells (get_args parts fresh_args)) = MAX_ARGS \<and>
      argv_of (cells (get_args parts fresh_args)) = Some (map c_string parts)) \<and>
   (cmd_tokens \<noteq> [] \<and> cmd_tokens ! 0 \<noteq> ''quit'' \<and> fork_res e 0 = Some pid \<longrightarrow>
      events (execute_command e cmd_tokens st) = [Fork pid, Waitpid pid] \<and>
      length (children (execute_command e cmd_tokens st)) = 1)"
  by (auto simp: get_args_fits argv_of_Ptrs execute_command_def split: prod.splits)

theorem get_args_within_bound_witness:
  "length [''ls'', ''-l''] < MAX_ARGS \<and>
   beyond (get_args [''ls'', ''-l''] fresh_args) = [] \<and>
   argv_of (cells (get_args [''ls'', ''-l''] fresh_args)) = Some [''ls'', ''-l''] \<and>
   events (execute_command env_ok [''ls'', ''-l''] st0) = [Fork 100, Waitpid 100]"
proof -
  have a: "length [''ls'', ''-l''] < MAX_ARGS"
    by (simp add: MAX_ARGS_def)
  have b: "[''ls'', ''-l''] \<noteq> [] \<and> [''ls'', ''-l''] ! 0 \<noteq> ''quit'' \<and> fork_res env_ok 0 = Some 100"
    by (simp add: env_ok_def)
  have "map c_string [''ls'', ''-l''] = [''ls'', ''-l'']"
    by (simp add: c_string_def)
  with get_args_within_bound [of "[''ls'', ''-l'']" "[''ls'', ''-l'']" env_ok 100 st0] a b
  show ?thesis
    by simp
qed

text \<open>
  The claim as stated fails: a command of 65 tokens is forked like any other, nothing is
  reported, and \<open>get_args\<close> stores at the indices 64 and 65, outside the array.
\<close>

theorem too_many_arguments_counterexample:
  "MAX_ARGS < length (replicate 65 ''a'') \<and>
   events (execute_command env_ok (replicate 65 ''a'') st0) = [Fork 100, Waitpid 100] \<and>
   length (children (execute_command env_ok (replicate 65 ''a'') st0)) = 1 \<and>
   beyond (get_args (replicate 65 ''a'') fresh_args) = [(64, Ptr ''a''), (65, Null)]"
proof (intro conjI)
  show "MAX_ARGS < length (replicate 65 ''a'')"
    by (simp add: MAX_ARGS_def)
  show "events (execute_command env_ok (replicate 65 ''a'') st0) = [Fork 100, Waitpid 100]"
    by code_simp
  show "length (children (execute_command env_ok (replicate 65 ''a'') st0)) = 1"
    by code_simp
  show "beyond (get_args (replicate 65 ''a'') fresh_args) = [(64, Ptr ''a''), (65, Null)]"
    by code_simp
qed

section \<open>A pipeline of one command\<close>

lemma kstate_same [simp]: "st\<lparr>fdt := fdt st\<rparr> = (st :: kstate)"
  by simp

text \<open>
  Claim C7, as amended. For a command that has a first token other than \<^verbatim>\<open>quit\<close>, the
  run of the pipeline executor on the one-command pipeline is the run of the
  single-command executor on the tokens of the command, except that the parent reaps
  with \<^verbatim>\<open>wait\<close> (any child) where the single-command executor calls \<^verbatim>\<open>waitpid\<close> on the
  child it forked: the same outcome, interpreter state and child (no channel, no
  redirection, no \<^verbatim>\<open>close\<close>, the same \<^verbatim>\<open>execvp\<close>), and the same report when \<^verbatim>\<open>fork\<close>
  fails.
\<close>

theorem single_stage_pipeline:
  assumes "split cmd CHR '' '' \<noteq> []" and "split cmd CHR '' '' ! 0 \<noteq> ''quit''"
  shows
    "execute_pipeline e [cmd] st =
       (execute_command e (split cmd CHR '' '') st)
         \<lparr>events := map reap_any (events (execute_command e (split cmd CHR '' '') st))\<rparr> \<and>
     (\<forall>ev \<in> set (events (execute_pipeline e [cmd] st)). \<not> is_pipe ev \<and> \<not> is_close ev) \<and>
     (\<forall>c \<in> set (children (execute_pipeline e [cmd] st)).
        \<forall>ev \<in> set (cevents c). \<not> is_dup2 ev \<and> \<not> is_close ev)"
proof -
  let ?tokens = "split cmd CHR '' ''"
  obtain ev4 t4 ce where x: "exec_child (exec_ok e 0) ?tokens (fdt st) = (ev4, t4, ce)"
    by (cases "exec_child (exec_ok e 0) ?tokens (fdt st)") auto
  have child: "pipeline_child e [cmd] [] 0 pid (fdt st) =
      \<lparr>stage = 0, cpid = pid, cevents = ev4, cfdt = t4, cend = ce\<rparr>" for pid
    by (simp add: pipeline_child_def child_dup2_def x)
  have ev4: "\<forall>ev \<in> set ev4. \<not> is_dup2 ev \<and> \<not> is_close ev"
    using exec_child_events [OF x] by blast
  show ?thesis
  proof (cases "fork_res e 0")
    case None
    then have "execute_pipeline e [cmd] st =
        \<lparr>outcome = Returned, events = [ForkFailed, Perror ''Fork failed''], state = st, children = []\<rparr>"
      by (simp add: execute_pipeline_def)
    moreover from None assms have "execute_command e ?tokens st =
        \<lparr>outcome = Returned, events = [ForkFailed, Perror ''Fork failed''], state = st, children = []\<rparr>"
      by (simp add: execute_command_def)
    ultimately show ?thesis
      by (simp add: reap_any_def is_pipe_def is_close_def)
  next
    case (Some pid)
    then have "execute_pipeline e [cmd] st =
        \<lparr>outcome = Returned, events = [Fork pid, Wait], state = st,
         children = [\<lparr>stage = 0, cpid = pid, cevents = ev4, cfdt = t4, cend = ce\<rparr>]\<rparr>"
      by (simp add: execute_pipeline_def child)
    moreover from Some assms have "execute_command e ?tokens st =
        \<lparr>outcome = Returned, events = [Fork pid, Waitpid pid], state = st,
         children = [\<lparr>stage = 0, cpid = pid, cevents = ev4, cfdt = t4, cend = ce\<rparr>]\<rparr>"
      by (simp add: execute_command_def x)
    ultimately show ?thesis
      using ev4 by (simp add: reap_any_def is_pipe_def is_close_def)
  qed
qed

theorem single_stage_pipeline_witness:
  "split ''ls -l'' CHR '' '' \<noteq> [] \<and> split ''ls -l'' CHR '' '' ! 0 \<noteq> ''quit'' \<and>
   execute_pipeline env_ok [''ls -l''] st0 =
     (execute_command env_ok (split ''ls -l'' CHR '' '') st0)
       \<lparr>events := map reap_any (events (execute_command env_ok (split ''ls -l'' CHR '' '') st0))\<rparr> \<and>
   events (execute_pipeline env_ok [''ls -l''] st0) = [Fork 100, Wait]"
proof -
  have t: "split ''ls -l'' CHR '' '' = [''ls'', ''-l'']"
    by code_simp
  then have a: "split ''ls -l'' CHR '' '' \<noteq> []" and b: "split ''ls -l'' CHR '' '' ! 0 \<noteq> ''quit''"
    by simp_all
  have "events (execute_pipeline env_ok [''ls -l''] st0) = [Fork 100, Wait]"
    by code_simp
  with single_stage_pipeline [OF a b, of env_ok st0] a b show ?thesis
    by blast
qed

text \<open>
  The claim as stated fails for the command \<^verbatim>\<open>quit\<close>: the single-command executor ends
  the interpreter with status 0 and forks nothing, while the pipeline executor forks a
  child that calls \<^verbatim>\<open>execvp\<close> on \<^verbatim>\<open>quit\<close>, reaps it and returns.
\<close>

theorem single_stage_pipeline_counterexample:
  "execute_command env_ok (split ''quit'' CHR '' '') st0 =
     \<lparr>outcome = Exited 0, events = [Exit 0], state = st0, children = []\<rparr> \<and>
   execute_pipeline env_ok [''quit''] st0 =
     \<lparr>outcome = Returned, events = [Fork 100, Wait], state = st0,
      children = [\<lparr>stage = 0, cpid = 100, cevents = [Execvp ''quit'' [''quit'']],
                   cfdt = fdt st0, cend = Replaced ''quit'' [''quit'']\<rparr>]\<rparr>"
proof
  show "execute_command env_ok (split ''quit'' CHR '' '') st0 =
     \<lparr>outcome = Exited 0, events = [Exit 0], state = st0, children = []\<rparr>"
    by code_simp
  show "execute_pipeline env_ok [''quit''] st0 =
     \<lparr>outcome = Returned, events = [Fork 100, Wait], state = st0,
      children = [\<lparr>stage = 0, cpid = 100, cevents = [Execvp ''quit'' [''quit'']],
                   cfdt = fdt st0, cend = Replaced ''quit'' [''quit'']\<rparr>]\<rparr>"
    by code_simp
qed

end
